theory Spec2Isabelle
  imports Complex_Main "HOL-Library.Word" "HOL-Library.Multiset"
begin

section \<open>Data model (SmartTaskManager.h)\<close>

text \<open>
  The class \<open>Task\<close>. The field \<open>id\<close> is written \<open>idT\<close> (the name \<open>id\<close> is HOL's
  identity function). \<open>priority\<close> is a C++ \<open>int\<close> and \<open>remainingHours\<close> a \<open>long\<close>; the
  record holds their values as mathematical integers. The one place where the code does
  arithmetic beyond \<open>+ 1\<close> on them, the conversion of a deadline to hours, is modelled on
  machine words below. Incrementing a priority that is \<open>INT_MAX\<close> is undefined behaviour
  in C++ and is outside this model.
\<close>

record Task =
  idT :: string
  description :: string
  deadlineDetails :: string
  priority :: int
  category :: string
  status :: string
  remainingHours :: int

text \<open>
  \<open>AVLTree::Node\<close>. Every node is owned by exactly one pointer (its parent's \<open>left\<close> or
  \<open>right\<close>, or \<open>root\<close>), so the linked structure reachable from a pointer is a tree and
  the pointer is modelled by that tree, \<open>nullptr\<close> by \<open>Null\<close>. The first field is the
  node's address: \<open>idMap\<close> stores node pointers, and they are resolved against it.
  Fields: address, \<open>task\<close>, \<open>key\<close>, \<open>left\<close>, \<open>right\<close>, \<open>height\<close>.
\<close>

datatype node = Null | Node nat Task int node node int

text \<open>
  The messages of the three \<open>runtime_error\<close>s thrown by \<open>AVLTree\<close> are
  "Task with the same ID already exists." (\<open>DuplicateId\<close>),
  "Duplicate priority encountered." (\<open>DuplicatePriorityKey\<close>) and
  "Task ID not found." (\<open>NotFound\<close>). \<open>NullDeref\<close> and \<open>Dangling\<close> stand for the two
  undefined behaviours the code could run into: reading through \<open>nullptr\<close>, and reading
  through a pointer of \<open>idMap\<close> whose node is no longer in the tree. Neither happens in
  a state the operations can reach (lemma \<open>reachable_defined\<close>).
\<close>

datatype error = DuplicateId | DuplicatePriorityKey | NotFound | NullDeref | Dangling

record AVLTree =
  root :: node
  idMap :: "string \<rightharpoonup> nat"
  nextAddr :: nat

text \<open>
  The constructor \<open>AVLTree()\<close>. \<open>new\<close> hands out the addresses \<open>0, 1, 2, \<dots>\<close>, a
  fresh one for every node; a real allocator may hand out a freed address again, which
  cannot be observed, since \<open>idMap\<close> keeps no pointer to a freed node (lemma
  \<open>reachable_mapInv\<close>).
\<close>

definition emptyTree :: AVLTree where
  "emptyTree = \<lparr>root = Null, idMap = Map.empty, nextAddr = 0\<rparr>"

section \<open>Balancing\<close>

fun getHeight :: "node \<Rightarrow> int" where
  "getHeight Null = 0"
| "getHeight (Node a t k l r h) = h"

fun getBalance :: "node \<Rightarrow> int" where
  "getBalance Null = 0"
| "getBalance (Node a t k l r h) = getHeight l - getHeight r"

fun updateHeight :: "node \<Rightarrow> node" where
  "updateHeight Null = Null"
| "updateHeight (Node a t k l r h) = Node a t k l r (1 + max (getHeight l) (getHeight r))"

fun rotateLeft :: "node \<Rightarrow> error + node" where
  "rotateLeft (Node a t k l (Node ra rt rk rl rr rh) h) =
     Inr (updateHeight (Node ra rt rk (updateHeight (Node a t k l rl h)) rr rh))"
| "rotateLeft _ = Inl NullDeref"

fun rotateRight :: "node \<Rightarrow> error + node" where
  "rotateRight (Node a t k (Node la lt lk ll lr lh) r h) =
     Inr (updateHeight (Node la lt lk ll (updateHeight (Node a t k lr r h)) lh))"
| "rotateRight _ = Inl NullDeref"

fun rotateLeftRight :: "node \<Rightarrow> error + node" where
  "rotateLeftRight Null = Inl NullDeref"
| "rotateLeftRight (Node a t k l r h) =
     (case rotateLeft l of
        Inl e \<Rightarrow> Inl e
      | Inr l' \<Rightarrow> rotateRight (Node a t k l' r h))"

fun rotateRightLeft :: "node \<Rightarrow> error + node" where
  "rotateRightLeft Null = Inl NullDeref"
| "rotateRightLeft (Node a t k l r h) =
     (case rotateRight r of
        Inl e \<Rightarrow> Inl e
      | Inr r' \<Rightarrow> rotateLeft (Node a t k l r' h))"

fun balance :: "node \<Rightarrow> error + node" where
  "balance Null = Inr Null"
| "balance (Node a t k l r h) =
     (let balanceFactor = getBalance (Node a t k l r h) in
      if balanceFactor > 1 then
        (if getBalance l < 0 then rotateLeftRight (Node a t k l r h)
         else rotateRight (Node a t k l r h))
      else if balanceFactor < -1 then
        (if getBalance r > 0 then rotateRightLeft (Node a t k l r h)
         else rotateLeft (Node a t k l r h))
      else Inr (Node a t k l r h))"

section \<open>Insertion, deletion, traversal\<close>

text \<open>
  \<open>insertHelper\<close> reads and writes the member \<open>idMap\<close> and allocates; both are passed
  as a pair (the map, the next free address) and returned. The \<open>throw\<close> is the value
  \<open>Inl DuplicatePriorityKey\<close>; an exception from a recursive call leaves the function
  before the assignment to \<open>node->left\<close> or \<open>node->right\<close>.
\<close>

fun insertHelper ::
  "node \<Rightarrow> Task \<Rightarrow> (string \<rightharpoonup> nat) \<times> nat \<Rightarrow> (error + node) \<times> ((string \<rightharpoonup> nat) \<times> nat)" where
  "insertHelper Null task (m, n) =
     (Inr (Node n task (priority task) Null Null 1), (m(idT task \<mapsto> n), Suc n))"
| "insertHelper (Node a t k l r h) task st =
     (if priority task < k then
        (case insertHelper l task st of
           (Inl e, st') \<Rightarrow> (Inl e, st')
         | (Inr l', st') \<Rightarrow> (balance (updateHeight (Node a t k l' r h)), st'))
      else if priority task > k then
        (case insertHelper r task st of
           (Inl e, st') \<Rightarrow> (Inl e, st')
         | (Inr r', st') \<Rightarrow> (balance (updateHeight (Node a t k l r' h)), st'))
      else (Inl DuplicatePriorityKey, st))"

fun findMin :: "node \<Rightarrow> node" where
  "findMin Null = Null"
| "findMin (Node a t k Null r h) = Node a t k Null r h"
| "findMin (Node a t k l r h) = findMin l"

fun deleteHelper ::
  "node \<Rightarrow> int \<Rightarrow> (string \<rightharpoonup> nat) \<Rightarrow> (error + node) \<times> (string \<rightharpoonup> nat)" where
  "deleteHelper Null key m = (Inr Null, m)"
| "deleteHelper (Node a t k l r h) key m =
     (if key < k then
        (case deleteHelper l key m of
           (Inl e, m') \<Rightarrow> (Inl e, m')
         | (Inr l', m') \<Rightarrow> (balance (updateHeight (Node a t k l' r h)), m'))
      else if key > k then
        (case deleteHelper r key m of
           (Inl e, m') \<Rightarrow> (Inl e, m')
         | (Inr r', m') \<Rightarrow> (balance (updateHeight (Node a t k l r' h)), m'))
      else
        (let m1 = m(idT t := None) in
         if l = Null \<or> r = Null then (Inr (if l \<noteq> Null then l else r), m1)
         else
           (case findMin r of
              Null \<Rightarrow> (Inl NullDeref, m1)
            | Node ma mt mk ml mr mh \<Rightarrow>
                (case deleteHelper r mk m1 of
                   (Inl e, m') \<Rightarrow> (Inl e, m')
                 | (Inr r', m') \<Rightarrow> (balance (updateHeight (Node a mt mk l r' h)), m')))))"

fun inOrder :: "node \<Rightarrow> Task list \<Rightarrow> Task list" where
  "inOrder Null tasks = tasks"
| "inOrder (Node a t k l r h) tasks = inOrder r (inOrder l tasks @ [t])"

text \<open>The node a pointer of \<open>idMap\<close> points to: its task and its key, if it is in the tree.\<close>

fun nodeAt :: "node \<Rightarrow> nat \<Rightarrow> (Task \<times> int) option" where
  "nodeAt Null p = None"
| "nodeAt (Node a t k l r h) p =
     (if p = a then Some (t, k)
      else (case nodeAt l p of Some x \<Rightarrow> Some x | None \<Rightarrow> nodeAt r p))"

section \<open>The public operations of \<open>AVLTree\<close>\<close>

text \<open>
  Each operation returns the exception that left it, if any, and the object's state
  afterwards. \<open>updateTaskStatus\<close> is never called by the menu loop and is left out.
\<close>

definition insert_task :: "Task \<Rightarrow> AVLTree \<Rightarrow> error option \<times> AVLTree" where
  "insert_task task tr =
     (if idMap tr (idT task) \<noteq> None then (Some DuplicateId, tr)
      else (case insertHelper (root tr) task (idMap tr, nextAddr tr) of
              (Inl e, (m, n)) \<Rightarrow> (Some e, tr\<lparr>idMap := m, nextAddr := n\<rparr>)
            | (Inr r, (m, n)) \<Rightarrow> (None, \<lparr>root = r, idMap = m, nextAddr = n\<rparr>)))"

fun rebuild_loop :: "Task list \<Rightarrow> AVLTree \<Rightarrow> error option \<times> AVLTree" where
  "rebuild_loop [] tr = (None, tr)"
| "rebuild_loop (t # ts) tr =
     (case insertHelper (root tr) t (idMap tr, nextAddr tr) of
        (Inl e, (m, n)) \<Rightarrow> (Some e, tr\<lparr>idMap := m, nextAddr := n\<rparr>)
      | (Inr r, (m, n)) \<Rightarrow> rebuild_loop ts \<lparr>root = r, idMap = m, nextAddr = n\<rparr>)"

definition rebuild :: "Task list \<Rightarrow> AVLTree \<Rightarrow> error option \<times> AVLTree" where
  "rebuild tasks tr = rebuild_loop tasks (tr\<lparr>root := Null, idMap := Map.empty\<rparr>)"

definition deleteTask :: "string \<Rightarrow> AVLTree \<Rightarrow> error option \<times> AVLTree" where
  "deleteTask i tr =
     (case idMap tr i of
        None \<Rightarrow> (Some NotFound, tr)
      | Some p \<Rightarrow>
          (case nodeAt (root tr) p of
             None \<Rightarrow> (Some Dangling, tr)
           | Some (t, key) \<Rightarrow>
               (case deleteHelper (root tr) key (idMap tr) of
                  (Inl e, m) \<Rightarrow> (Some e, tr\<lparr>idMap := m\<rparr>)
                | (Inr r, m) \<Rightarrow> (None, tr\<lparr>root := r, idMap := m\<rparr>))))"

text \<open>
  \<open>search\<close> returns a pointer into the node \<open>idMap\<close> names, or \<open>nullptr\<close> (\<open>None\<close>);
  \<open>searchTask\<close> is the record read through that pointer.
\<close>

definition search :: "string \<Rightarrow> AVLTree \<Rightarrow> nat option" where
  "search i tr = idMap tr i"

definition searchTask :: "string \<Rightarrow> AVLTree \<Rightarrow> error + Task option" where
  "searchTask i tr =
     (case search i tr of
        None \<Rightarrow> Inr None
      | Some p \<Rightarrow> (case nodeAt (root tr) p of
                    None \<Rightarrow> Inl Dangling
                  | Some (t, key) \<Rightarrow> Inr (Some t)))"

definition listTasks :: "AVLTree \<Rightarrow> Task list" where
  "listTasks tr = inOrder (root tr) []"

section \<open>The menu loop (Main.cpp)\<close>

subsection \<open>Library functions the code calls\<close>

text \<open>
  \<open>std::to_string\<close> on an \<open>int\<close>: decimal digits, with a minus sign for a negative
  value.
\<close>

fun natToString :: "nat \<Rightarrow> string" where
  "natToString n =
     (if n < 10 then [''0123456789'' ! n]
      else natToString (n div 10) @ [''0123456789'' ! (n mod 10)])"

declare natToString.simps [simp del]

definition to_string :: "int \<Rightarrow> string" where
  "to_string i = (if i < 0 then CHR ''-'' # natToString (nat (- i)) else natToString (nat i))"

text \<open>
  \<open>std::sort\<close> is not part of the repository. The menu loop calls it with comparators
  of the form \<open>a.f < b.f\<close>, so it is taken as a parameter \<open>srt\<close> of the operations below,
  applied to the field \<open>f\<close>; \<open>std_sort_ok\<close> is what the C++ standard promises of it:
  the result is a permutation of the input, ordered by the comparator. The standard says
  nothing on the order of elements that compare equal.
\<close>

definition std_sort_ok :: "((Task \<Rightarrow> int) \<Rightarrow> Task list \<Rightarrow> Task list) \<Rightarrow> bool" where
  "std_sort_ok srt \<longleftrightarrow> (\<forall>f xs. mset (srt f xs) = mset xs \<and> sorted (map f (srt f xs)))"

subsection \<open>Choice 1: insert a task\<close>

text \<open>
  Lines 102 to 109. The four numbers are the \<open>int\<close>s read by \<open>getIntInput\<close>;
  \<open>hoursInput\<close> is what the user would answer to "Enter remaining hours", a question
  asked only when the other three are zero. \<open>long\<close> has 64 bits (LP64).
\<close>

definition hoursRead :: "32 word \<Rightarrow> 32 word \<Rightarrow> 32 word \<Rightarrow> 32 word \<Rightarrow> 32 word" where
  "hoursRead years months days hoursInput =
     (if years = 0 \<and> months = 0 \<and> days = 0 then hoursInput else 0)"

definition computeRemainingHours ::
  "32 word \<Rightarrow> 32 word \<Rightarrow> 32 word \<Rightarrow> 32 word \<Rightarrow> 64 word" where
  "computeRemainingHours years months days hoursInput =
     (let hours = hoursRead years months days hoursInput in
      (scast years :: 64 word) * 365 * 24 + (scast months :: 64 word) * 30 * 24
        + (scast days :: 64 word) * 24 + (scast hours :: 64 word))"

definition deadlineString :: "32 word \<Rightarrow> 32 word \<Rightarrow> 32 word \<Rightarrow> 32 word \<Rightarrow> string" where
  "deadlineString years months days hoursInput =
     (let hours = hoursRead years months days hoursInput;
          deadlineStr = to_string (sint years) @ '' year(s), '' @ to_string (sint months)
            @ '' month(s), '' @ to_string (sint days) @ '' day(s)''
      in if years = 0 \<and> months = 0 \<and> days = 0
         then deadlineStr @ '', '' @ to_string (sint hours) @ '' hour(s)''
         else deadlineStr)"

text \<open>Line 96: \<open>string status = "incomplete";\<close>\<close>

definition initialStatus :: string where
  "initialStatus = ''incomplete''"

text \<open>Lines 99 to 114: the remaining hours and the deadline text of the new task.\<close>

definition deadlineOf ::
  "string \<Rightarrow> 32 word \<Rightarrow> 32 word \<Rightarrow> 32 word \<Rightarrow> 32 word \<Rightarrow> int \<times> string" where
  "deadlineOf st years months days hoursInput =
     (if st = ''incomplete''
      then (sint (computeRemainingHours years months days hoursInput),
            deadlineString years months days hoursInput)
      else (0, ''N/A''))"

text \<open>The loop of lines 135 to 140, \<open>newPriority\<close> being 1 before it.\<close>

fun firstLater :: "int \<Rightarrow> Task list \<Rightarrow> int \<Rightarrow> int" where
  "firstLater totalRemainingHours [] newPriority = newPriority"
| "firstLater totalRemainingHours (t # ts) newPriority =
     (if totalRemainingHours < remainingHours t then priority t
      else firstLater totalRemainingHours ts newPriority)"

text \<open>Lines 118 to 148: the new task's priority and the shifted list.\<close>

definition rankForInsertion :: "string \<Rightarrow> int \<Rightarrow> Task list \<Rightarrow> int \<times> Task list" where
  "rankForInsertion st totalRemainingHours tasks =
     (if st = ''complete'' then
        (if tasks \<noteq> [] then (priority (last tasks) + 1, tasks) else (1, tasks))
      else if tasks \<noteq> [] then
        (if totalRemainingHours < remainingHours (hd tasks) then
           (1, map (\<lambda>t. t\<lparr>priority := priority t + 1\<rparr>) tasks)
         else if totalRemainingHours \<ge> remainingHours (last tasks) then
           (priority (last tasks) + 1, tasks)
         else
           (let newPriority = firstLater totalRemainingHours tasks 1 in
            (newPriority,
             map (\<lambda>t. if priority t \<ge> newPriority then t\<lparr>priority := priority t + 1\<rparr> else t)
               tasks)))
      else (1, tasks))"

text \<open>Line 150: the record of the new task.\<close>

definition newTask ::
  "string \<Rightarrow> string \<Rightarrow> string \<Rightarrow> 32 word \<Rightarrow> 32 word \<Rightarrow> 32 word \<Rightarrow> 32 word \<Rightarrow> Task list \<Rightarrow> Task"
  where
  "newTask i desc cat years months days hoursInput tasks =
     (let (totalRemainingHours, deadlineStr) =
            deadlineOf initialStatus years months days hoursInput;
          (newPriority, tasks') = rankForInsertion initialStatus totalRemainingHours tasks
      in \<lparr>idT = i, description = desc, deadlineDetails = deadlineStr, priority = newPriority,
          category = cat, status = initialStatus, remainingHours = totalRemainingHours\<rparr>)"

text \<open>Lines 117 to 154: the list handed to \<open>rebuild\<close>.\<close>

definition insertList ::
  "((Task \<Rightarrow> int) \<Rightarrow> Task list \<Rightarrow> Task list) \<Rightarrow> string \<Rightarrow> string \<Rightarrow> string \<Rightarrow>
   32 word \<Rightarrow> 32 word \<Rightarrow> 32 word \<Rightarrow> 32 word \<Rightarrow> Task list \<Rightarrow> Task list" where
  "insertList srt i desc cat years months days hoursInput tasks =
     (let (totalRemainingHours, deadlineStr) =
            deadlineOf initialStatus years months days hoursInput;
          (newPriority, tasks') = rankForInsertion initialStatus totalRemainingHours tasks
      in srt priority
           (tasks' @ [newTask i desc cat years months days hoursInput tasks]))"

text \<open>
  The operations of the menu return the exception that ended the program, if any (none of
  the calls to \<open>rebuild\<close> is inside a \<open>try\<close>), and the tree afterwards. The database calls
  are left out: their exceptions are caught and they do not touch the tree.
\<close>

definition insertChoice ::
  "((Task \<Rightarrow> int) \<Rightarrow> Task list \<Rightarrow> Task list) \<Rightarrow> string \<Rightarrow> string \<Rightarrow> string \<Rightarrow>
   32 word \<Rightarrow> 32 word \<Rightarrow> 32 word \<Rightarrow> 32 word \<Rightarrow> AVLTree \<Rightarrow> error option \<times> AVLTree" where
  "insertChoice srt i desc cat years months days hoursInput tr =
     (if search i tr \<noteq> None then (None, tr)
      else rebuild (insertList srt i desc cat years months days hoursInput (listTasks tr)) tr)"

subsection \<open>Choice 2: update a task's status\<close>

text \<open>Lines 178 to 185: the first task of the list with the given id gets the new status.\<close>

fun setStatus :: "string \<Rightarrow> string \<Rightarrow> Task list \<Rightarrow> bool \<times> Task list" where
  "setStatus i newStatus [] = (False, [])"
| "setStatus i newStatus (t # ts) =
     (if idT t = i then (True, t\<lparr>status := newStatus\<rparr> # ts)
      else (let (found, ts') = setStatus i newStatus ts in (found, t # ts')))"

text \<open>Lines 210 to 213.\<close>

fun assignPriorities :: "int \<Rightarrow> Task list \<Rightarrow> Task list" where
  "assignPriorities newPriority [] = []"
| "assignPriorities newPriority (t # ts) =
     t\<lparr>priority := newPriority\<rparr> # assignPriorities (newPriority + 1) ts"

text \<open>Lines 191 to 213.\<close>

definition renumberOnStatusChange ::
  "((Task \<Rightarrow> int) \<Rightarrow> Task list \<Rightarrow> Task list) \<Rightarrow> Task list \<Rightarrow> Task list" where
  "renumberOnStatusChange srt tasks =
     (let incompleteTasks = filter (\<lambda>t. status t = ''incomplete'') tasks;
          completeTasks = filter (\<lambda>t. status t \<noteq> ''incomplete'') tasks
      in assignPriorities 1
           (srt remainingHours incompleteTasks @ srt priority completeTasks))"

definition updateChoice ::
  "((Task \<Rightarrow> int) \<Rightarrow> Task list \<Rightarrow> Task list) \<Rightarrow> string \<Rightarrow> char \<Rightarrow> AVLTree \<Rightarrow>
   error option \<times> AVLTree" where
  "updateChoice srt i completeAnswer tr =
     (if search i tr = None then (None, tr)
      else
        (let newStatus = (if completeAnswer = CHR ''y'' then ''complete'' else ''incomplete'');
             (found, tasks) = setStatus i newStatus (listTasks tr)
         in if \<not> found then (None, tr)
            else rebuild (renumberOnStatusChange srt tasks) tr))"

subsection \<open>Choice 3: delete a task\<close>

text \<open>The \<open>runtime_error\<close> of \<open>deleteTask\<close> is caught and printed.\<close>

definition deleteChoice :: "string \<Rightarrow> AVLTree \<Rightarrow> error option \<times> AVLTree" where
  "deleteChoice i tr =
     (case deleteTask i tr of
        (Some NotFound, tr') \<Rightarrow> (None, tr')
      | (e, tr') \<Rightarrow> (e, tr'))"

section \<open>std::sort in the GNU C++ library\<close>

text \<open>
  What \<open>std::sort\<close> does with elements that compare equal is decided by the library the
  program is built with. These are the functions of \<open>bits/stl_algo.h\<close> of libstdc++
  behind \<open>std::sort\<close> on a vector, the vector as a list, the iterators as indices, and
  the names without their leading underscores; \<open>cmp\<close> is the source's \<open>comp\<close> and
  \<open>last'\<close> its \<open>last\<close>. The threshold \<open>_S_threshold\<close> is 16.
\<close>

definition iter_swap :: "nat \<Rightarrow> nat \<Rightarrow> 'a list \<Rightarrow> 'a list" where
  "iter_swap a b xs = xs[a := xs ! b, b := xs ! a]"

definition move_median_to_first ::
  "('a \<Rightarrow> 'a \<Rightarrow> bool) \<Rightarrow> nat \<Rightarrow> nat \<Rightarrow> nat \<Rightarrow> nat \<Rightarrow> 'a list \<Rightarrow> 'a list" where
  "move_median_to_first cmp result a b c xs =
     (if cmp (xs ! a) (xs ! b) then
        (if cmp (xs ! b) (xs ! c) then iter_swap result b xs
         else if cmp (xs ! a) (xs ! c) then iter_swap result c xs
         else iter_swap result a xs)
      else if cmp (xs ! a) (xs ! c) then iter_swap result a xs
      else if cmp (xs ! b) (xs ! c) then iter_swap result c xs
      else iter_swap result b xs)"

text \<open>
  The two inner loops of \<open>__unguarded_partition\<close>: \<open>while (comp(first, pivot)) ++first\<close>
  and \<open>while (comp(pivot, last)) --last\<close>. They have no bounds check in the source; here a
  scan ends at the end of the list at the latest. With a comparator that is a strict weak
  order the pivot and the median stop them before.
\<close>

definition scanUp :: "('a \<Rightarrow> 'a \<Rightarrow> bool) \<Rightarrow> 'a list \<Rightarrow> nat \<Rightarrow> nat \<Rightarrow> nat" where
  "scanUp cmp xs pivot first =
     first + length (takeWhile (\<lambda>x. cmp x (xs ! pivot)) (drop first xs))"

definition scanDown :: "('a \<Rightarrow> 'a \<Rightarrow> bool) \<Rightarrow> 'a list \<Rightarrow> nat \<Rightarrow> nat \<Rightarrow> nat" where
  "scanDown cmp xs pivot last' =
     last' - length (takeWhile (\<lambda>x. cmp (xs ! pivot) x) (rev (take (Suc last') xs)))"

function unguarded_partition ::
  "('a \<Rightarrow> 'a \<Rightarrow> bool) \<Rightarrow> nat \<Rightarrow> nat \<Rightarrow> nat \<Rightarrow> 'a list \<Rightarrow> nat \<times> 'a list" where
  "unguarded_partition cmp first last' pivot xs =
     (let i = scanUp cmp xs pivot first;
          j = scanDown cmp xs pivot (last' - 1)
      in if \<not> i < j then (i, xs)
         else unguarded_partition cmp (i + 1) j pivot (iter_swap i j xs))"
  by pat_completeness auto
termination
  by (relation "measure (\<lambda>(cmp, first, last', pivot, xs). last' - first)")
    (auto simp: scanUp_def scanDown_def)

definition unguarded_partition_pivot ::
  "('a \<Rightarrow> 'a \<Rightarrow> bool) \<Rightarrow> nat \<Rightarrow> nat \<Rightarrow> 'a list \<Rightarrow> nat \<times> 'a list" where
  "unguarded_partition_pivot cmp first last' xs =
     (let mid = first + (last' - first) div 2
      in unguarded_partition cmp (first + 1) last' first
           (move_median_to_first cmp first (first + 1) mid (last' - 1) xs))"

text \<open>
  \<open>__introsort_loop\<close>: while the range has more than 16 elements, partition it, recurse
  into the upper part and go on with the lower one. At depth limit 0 the source sorts the
  range with \<open>__partial_sort\<close> (a heap sort), which is not modelled: the result is \<open>None\<close>.
\<close>

fun introsort_loop ::
  "('a \<Rightarrow> 'a \<Rightarrow> bool) \<Rightarrow> nat \<Rightarrow> nat \<Rightarrow> nat \<Rightarrow> 'a list \<Rightarrow> 'a list option" where
  "introsort_loop cmp 0 first last' xs = (if last' - first > 16 then None else Some xs)"
| "introsort_loop cmp (Suc depth_limit) first last' xs =
     (if last' - first > 16 then
        (let (cut, xs') = unguarded_partition_pivot cmp first last' xs
         in case introsort_loop cmp depth_limit cut last' xs' of
              None \<Rightarrow> None
            | Some xs'' \<Rightarrow> introsort_loop cmp depth_limit first cut xs'')
      else Some xs)"

text \<open>
  \<open>__unguarded_linear_insert\<close> moves the value at \<open>last\<close> down past every element it is
  less than. It has no bounds check either; here it ends at index 0 at the latest.
\<close>

fun unguarded_linear_insert :: "('a \<Rightarrow> 'a \<Rightarrow> bool) \<Rightarrow> 'a \<Rightarrow> nat \<Rightarrow> 'a list \<Rightarrow> 'a list" where
  "unguarded_linear_insert cmp val last' xs =
     (if 0 < last' \<and> cmp val (xs ! (last' - 1))
      then unguarded_linear_insert cmp val (last' - 1) (xs[last' := xs ! (last' - 1)])
      else xs[last' := val])"

definition move_backward :: "nat \<Rightarrow> nat \<Rightarrow> nat \<Rightarrow> 'a list \<Rightarrow> 'a list" where
  "move_backward first last' result xs =
     take (result - (last' - first)) xs @ take (last' - first) (drop first xs) @ drop result xs"

definition insertion_sort :: "('a \<Rightarrow> 'a \<Rightarrow> bool) \<Rightarrow> nat \<Rightarrow> nat \<Rightarrow> 'a list \<Rightarrow> 'a list" where
  "insertion_sort cmp first last' xs =
     (if first = last' then xs
      else fold (\<lambda>i xs.
             if cmp (xs ! i) (xs ! first)
             then (move_backward first i (i + 1) xs)[first := xs ! i]
             else unguarded_linear_insert cmp (xs ! i) i xs)
           [first + 1 ..< last'] xs)"

definition unguarded_insertion_sort ::
  "('a \<Rightarrow> 'a \<Rightarrow> bool) \<Rightarrow> nat \<Rightarrow> nat \<Rightarrow> 'a list \<Rightarrow> 'a list" where
  "unguarded_insertion_sort cmp first last' xs =
     fold (\<lambda>i xs. unguarded_linear_insert cmp (xs ! i) i xs) [first ..< last'] xs"

definition final_insertion_sort ::
  "('a \<Rightarrow> 'a \<Rightarrow> bool) \<Rightarrow> nat \<Rightarrow> nat \<Rightarrow> 'a list \<Rightarrow> 'a list" where
  "final_insertion_sort cmp first last' xs =
     (if last' - first > 16
      then unguarded_insertion_sort cmp (first + 16) last'
             (insertion_sort cmp first (first + 16) xs)
      else insertion_sort cmp first last' xs)"

text \<open>\<open>std::__lg\<close>: the position of the highest bit set.\<close>

fun lg :: "nat \<Rightarrow> nat" where
  "lg n = (if n < 2 then 0 else Suc (lg (n div 2)))"

definition std_sort :: "('a \<Rightarrow> 'a \<Rightarrow> bool) \<Rightarrow> 'a list \<Rightarrow> 'a list option" where
  "std_sort cmp xs =
     (if xs = [] then Some xs
      else map_option (final_insertion_sort cmp 0 (length xs))
             (introsort_loop cmp (lg (length xs) * 2) 0 (length xs) xs))"

text \<open>
  The sort as the menu loop calls it, with the comparator \<open>a.f < b.f\<close>. Where the model
  above gives \<open>None\<close> its value is left open, so a list that is computed with it has not
  been through the heap sort.
\<close>

definition sort_libstdcxx :: "(Task \<Rightarrow> int) \<Rightarrow> Task list \<Rightarrow> Task list" where
  "sort_libstdcxx f xs = the (std_sort (\<lambda>a b. f a < f b) xs)"

section \<open>Notions used to state the properties\<close>

text \<open>The nodes of a tree in in-order: address, task and key of each.\<close>

fun nodesOf :: "node \<Rightarrow> (nat \<times> Task \<times> int) list" where
  "nodesOf Null = []"
| "nodesOf (Node a t k l r h) = nodesOf l @ (a, t, k) # nodesOf r"

definition keysOf :: "node \<Rightarrow> int list" where
  "keysOf n = map (\<lambda>x. snd (snd x)) (nodesOf n)"

definition tasksOf :: "node \<Rightarrow> Task list" where
  "tasksOf n = map (\<lambda>x. fst (snd x)) (nodesOf n)"

text \<open>
  The height-balance invariant on the stored heights: every \<open>height\<close> field is one more
  than the larger of the children's, and the children's differ by at most one.
\<close>

fun avl :: "node \<Rightarrow> bool" where
  "avl Null = True"
| "avl (Node a t k l r h) =
     (avl l \<and> avl r \<and> h = 1 + max (getHeight l) (getHeight r)
      \<and> getHeight l - getHeight r \<le> 1 \<and> getHeight r - getHeight l \<le> 1)"

text \<open>
  A task without its priority: renumbering changes priorities only. \<open>policyOrdered\<close> is
  the order of invariants I2 and I3 (P2 and P3) on a list: a task that is incomplete is
  preceded by incomplete tasks only, none of them with more remaining hours.
\<close>

definition forget :: "Task \<Rightarrow> Task" where
  "forget t = t\<lparr>priority := 0\<rparr>"

definition policyOrdered :: "Task list \<Rightarrow> bool" where
  "policyOrdered tasks \<longleftrightarrow>
     sorted_wrt (\<lambda>a b. status b = ''incomplete'' \<longrightarrow>
        status a = ''incomplete'' \<and> remainingHours a \<le> remainingHours b) tasks"

text \<open>
  What the insertion does to an existing task when the new task gets priority \<open>np\<close>:
  the tasks from that priority on move one place down.
\<close>

definition shiftFrom :: "int \<Rightarrow> Task \<Rightarrow> Task" where
  "shiftFrom np t = (if priority t \<ge> np then t\<lparr>priority := priority t + 1\<rparr> else t)"

text \<open>
  The search-tree invariant of the index: balanced, keys strictly ascending in in-order,
  and every node's key equal to the priority of its task.
\<close>

definition treeInv :: "AVLTree \<Rightarrow> bool" where
  "treeInv tr \<longleftrightarrow>
     avl (root tr) \<and> sorted_wrt (<) (keysOf (root tr))
     \<and> keysOf (root tr) = map priority (tasksOf (root tr))"

text \<open>
  What a deletion of \<open>key\<close> does to the in-order list of nodes \<open>ns\<close> and to the map
  \<open>m\<close>: nothing when the key is absent; the node is unlinked and its task's id erased;
  or, for a node with two children, the successor's task and key move into the node, the
  successor's node is unlinked, and both ids are erased.
\<close>

definition removal ::
  "int \<Rightarrow> (nat \<times> Task \<times> int) list \<Rightarrow> (string \<rightharpoonup> nat) \<Rightarrow>
   (nat \<times> Task \<times> int) list \<Rightarrow> (string \<rightharpoonup> nat) \<Rightarrow> bool" where
  "removal key ns m ns' m' \<longleftrightarrow>
     (key \<notin> snd ` snd ` set ns \<and> ns' = ns \<and> m' = m)
     \<or> (\<exists>xs a t ys. ns = xs @ (a, t, key) # ys \<and> ns' = xs @ ys \<and> m' = m(idT t := None))
     \<or> (\<exists>xs a t pm mt mk zs. ns = xs @ (a, t, key) # (pm, mt, mk) # zs
           \<and> ns' = xs @ (a, mt, mk) # zs \<and> m' = m(idT t := None, idT mt := None))"

text \<open>
  The invariant of \<open>idMap\<close>: node addresses are distinct and below the next free
  address, and every pointer in the map is the address of a node of the tree whose task has
  the id it is filed under.
\<close>

definition mapInv :: "AVLTree \<Rightarrow> bool" where
  "mapInv tr \<longleftrightarrow>
     distinct (map fst (nodesOf (root tr)))
     \<and> (\<forall>x \<in> set (nodesOf (root tr)). fst x < nextAddr tr)
     \<and> (\<forall>i p. idMap tr i = Some p \<longrightarrow>
          (\<exists>t k. (p, t, k) \<in> set (nodesOf (root tr)) \<and> idT t = i))"

text \<open>
  The states of the index after any sequence of its operations, whether they return or
  throw, from the empty tree.
\<close>

inductive reachable :: "AVLTree \<Rightarrow> bool" where
  start: "reachable emptyTree"
| ins: "reachable tr \<Longrightarrow> reachable (snd (insert_task task tr))"
| reb: "reachable tr \<Longrightarrow> reachable (snd (rebuild tasks tr))"
| del: "reachable tr \<Longrightarrow> reachable (snd (deleteTask i tr))"

text \<open>
  The states in which no task has been deleted since the index was created or last
  rebuilt: the empty tree, the result of any \<open>rebuild\<close>, whether it returns or throws,
  and what \<open>insert\<close> makes of such a state. The insertion and the status update of the
  menu loop end in a \<open>rebuild\<close>.
\<close>

inductive noDeletion :: "AVLTree \<Rightarrow> bool" where
  created: "noDeletion emptyTree"
| rebuilt: "noDeletion (snd (rebuild tasks tr))"
| inserted: "noDeletion tr \<Longrightarrow> noDeletion (snd (insert_task task tr))"

text \<open>
  The height of a tree as the number of nodes on its longest path, computed from the
  links and not read from the \<open>height\<close> fields.
\<close>

fun depth :: "node \<Rightarrow> nat" where
  "depth Null = 0"
| "depth (Node a t k l r h) = 1 + max (depth l) (depth r)"

text \<open>The least number of nodes of a balanced tree of a given height.\<close>

fun minNodes :: "nat \<Rightarrow> nat" where
  "minNodes 0 = 0"
| "minNodes (Suc 0) = 1"
| "minNodes (Suc (Suc h)) = 1 + minNodes (Suc h) + minNodes h"

section \<open>The scenarios of the specification\<close>

text \<open>
  Scenario A: tasks with 10, 5 and 20 remaining hours are inserted in that order.
  Scenario B: the 10-hour task is then marked complete. Scenario C: the 20-hour task is then
  deleted. \<open>std::sort\<close> is \<open>sort_key\<close>, the insertion sort of the list library.
\<close>

definition scenarioA :: AVLTree where
  "scenarioA =
     snd (insertChoice sort_key ''t20'' ''third'' ''work'' 0 0 0 20
       (snd (insertChoice sort_key ''t5'' ''second'' ''work'' 0 0 0 5
         (snd (insertChoice sort_key ''t10'' ''first'' ''work'' 0 0 0 10 emptyTree)))))"

definition scenarioB :: AVLTree where
  "scenarioB = snd (updateChoice sort_key ''t10'' CHR ''y'' scenarioA)"

definition scenarioC :: AVLTree where
  "scenarioC = snd (deleteChoice ''t20'' scenarioB)"

text \<open>The three records of Scenario B's state.\<close>

definition scenarioB5 :: Task where
  "scenarioB5 = \<lparr>idT = ''t5'', description = ''second'',
     deadlineDetails = ''0 year(s), 0 month(s), 0 day(s), 5 hour(s)'', priority = 1,
     category = ''work'', status = ''incomplete'', remainingHours = 5\<rparr>"

definition scenarioB20 :: Task where
  "scenarioB20 = \<lparr>idT = ''t20'', description = ''third'',
     deadlineDetails = ''0 year(s), 0 month(s), 0 day(s), 20 hour(s)'', priority = 2,
     category = ''work'', status = ''incomplete'', remainingHours = 20\<rparr>"

definition scenarioB10 :: Task where
  "scenarioB10 = \<lparr>idT = ''t10'', description = ''first'',
     deadlineDetails = ''0 year(s), 0 month(s), 0 day(s), 10 hour(s)'', priority = 3,
     category = ''work'', status = ''complete'', remainingHours = 10\<rparr>"

text \<open>Two tasks with the same priority, for \<open>rebuild\<close>.\<close>

definition dupX :: Task where
  "dupX = \<lparr>idT = ''x'', description = ''d'', deadlineDetails = ''N/A'', priority = 1,
     category = ''c'', status = ''incomplete'', remainingHours = 3\<rparr>"

definition dupY :: Task where
  "dupY = \<lparr>idT = ''y'', description = ''d'', deadlineDetails = ''N/A'', priority = 1,
     category = ''c'', status = ''incomplete'', remainingHours = 4\<rparr>"

text \<open>
  Seventeen tasks with 5 remaining hours each, inserted in the order of their names, and
  then a task with 9 remaining hours; \<open>std::sort\<close> is that of libstdc++.
\<close>

definition tiedIds :: "string list" where
  "tiedIds =
     [''t01'', ''t02'', ''t03'', ''t04'', ''t05'', ''t06'', ''t07'', ''t08'', ''t09'',
      ''t10'', ''t11'', ''t12'', ''t13'', ''t14'', ''t15'', ''t16'', ''t17'']"

definition tiedState :: AVLTree where
  "tiedState =
     snd (insertChoice sort_libstdcxx ''t18'' ''later'' ''work'' 0 0 0 9
       (fold (\<lambda>i tr. snd (insertChoice sort_libstdcxx i ''tied'' ''work'' 0 0 0 5 tr))
          tiedIds emptyTree))"

section \<open>Balance and order of the tree\<close>

lemma avl_height_ge0: "avl n \<Longrightarrow> 0 \<le> getHeight n"
  by (induction n) auto

lemma avl_height_pos: "avl (Node a t k l r h) \<Longrightarrow> 1 \<le> h"
  using avl_height_ge0 [of l] avl_height_ge0 [of r] by auto

lemma avl_height_0: "avl n \<Longrightarrow> getHeight n \<le> 0 \<Longrightarrow> n = Null"
proof (cases n)
  case (Node a t k l r h)
  assume "avl n" "getHeight n \<le> 0"
  with Node avl_height_pos [of a t k l r h] show ?thesis by simp
qed simp

lemma balance_ok:
  assumes "avl l" "avl r" "getHeight l - getHeight r \<le> 1" "getHeight r - getHeight l \<le> 1"
  shows "balance (updateHeight (Node a t k l r h)) =
           Inr (Node a t k l r (1 + max (getHeight l) (getHeight r)))"
  using assms by (simp add: Let_def)

lemma balance_left_heavy:
  assumes "avl l" "avl r" "getHeight l = getHeight r + 2"
  shows "\<exists>n'. balance (updateHeight (Node a t k l r h)) = Inr n' \<and> avl n'
     \<and> nodesOf n' = nodesOf l @ (a, t, k) # nodesOf r
     \<and> (getHeight n' = getHeight r + 2 \<or> getHeight n' = getHeight r + 3)"
proof (cases l)
  case Null
  then show ?thesis using assms avl_height_ge0 [of r] by simp
next
  case (Node la lt lk ll lr lh)
  note l = this
  show ?thesis
  proof (cases "getHeight ll < getHeight lr")
    case False
    then show ?thesis using assms l by (auto simp: Let_def max_def)
  next
    case True
    then have "lr \<noteq> Null" using assms l avl_height_ge0 [of ll] by auto
    then obtain ra rt rk rl rr rh where lr: "lr = Node ra rt rk rl rr rh" by (cases lr) auto
    show ?thesis using assms l lr True by (auto simp: Let_def max_def split: if_splits)
  qed
qed

lemma balance_right_heavy:
  assumes "avl l" "avl r" "getHeight r = getHeight l + 2"
  shows "\<exists>n'. balance (updateHeight (Node a t k l r h)) = Inr n' \<and> avl n'
     \<and> nodesOf n' = nodesOf l @ (a, t, k) # nodesOf r
     \<and> (getHeight n' = getHeight l + 2 \<or> getHeight n' = getHeight l + 3)"
proof (cases r)
  case Null
  then show ?thesis using assms avl_height_ge0 [of l] by simp
next
  case (Node ra rt rk rl rr rh)
  note r = this
  show ?thesis
  proof (cases "getHeight rl > getHeight rr")
    case False
    then show ?thesis using assms r by (auto simp: Let_def max_def)
  next
    case True
    then have "rl \<noteq> Null" using assms r avl_height_ge0 [of rr] by auto
    then obtain la lt lk ll lr lh where rl: "rl = Node la lt lk ll lr lh" by (cases rl) auto
    show ?thesis using assms r rl True by (auto simp: Let_def max_def split: if_splits)
  qed
qed

lemma balance_avl:
  assumes "avl l" "avl r" "getHeight l - getHeight r \<le> 2" "getHeight r - getHeight l \<le> 2"
  shows "\<exists>n'. balance (updateHeight (Node a t k l r h)) = Inr n' \<and> avl n'
     \<and> nodesOf n' = nodesOf l @ (a, t, k) # nodesOf r
     \<and> (getHeight n' = 1 + max (getHeight l) (getHeight r)
        \<or> (getHeight n' = max (getHeight l) (getHeight r)
            \<and> (getHeight l = getHeight r + 2 \<or> getHeight r = getHeight l + 2)))"
proof -
  consider "getHeight l = getHeight r + 2" | "getHeight r = getHeight l + 2"
    | "getHeight l - getHeight r \<le> 1" "getHeight r - getHeight l \<le> 1"
    using assms by linarith
  then show ?thesis
  proof cases
    case 1
    from balance_left_heavy [OF assms(1,2) 1, of a t k h] 1 show ?thesis
      by (auto simp: max_def)
  next
    case 2
    from balance_right_heavy [OF assms(1,2) 2, of a t k h] 2 show ?thesis
      by (auto simp: max_def)
  next
    case 3
    with balance_ok [OF assms(1,2) 3, of a t k h] assms(1,2) show ?thesis
      by simp
  qed
qed

lemma insertHelper_avl:
  assumes "avl n"
  shows "(\<exists>n'. insertHelper n task (m, c) = (Inr n', (m(idT task \<mapsto> c), Suc c)) \<and> avl n'
            \<and> (getHeight n' = getHeight n \<or> getHeight n' = getHeight n + 1)
            \<and> n' \<noteq> Null)
       \<or> insertHelper n task (m, c) = (Inl DuplicatePriorityKey, (m, c))"
  using assms
proof (induction n)
  case Null
  show ?case
    by (intro disjI1 exI [of _ "Node c task (priority task) Null Null 1"])
      (simp del: fun_upd_apply)
next
  case (Node a t k l r h)
  from Node.prems have al: "avl l" and ar: "avl r"
    and h: "h = 1 + max (getHeight l) (getHeight r)"
    and b: "getHeight l - getHeight r \<le> 1" "getHeight r - getHeight l \<le> 1"
    by auto
  consider "priority task < k" | "priority task > k" | "priority task = k" by linarith
  then show ?case
  proof cases
    case 1
    from Node.IH(1) [OF al] show ?thesis
    proof
      assume "insertHelper l task (m, c) = (Inl DuplicatePriorityKey, (m, c))"
      with 1 show ?thesis by simp
    next
      assume "\<exists>n'. insertHelper l task (m, c) = (Inr n', (m(idT task \<mapsto> c), Suc c)) \<and> avl n'
            \<and> (getHeight n' = getHeight l \<or> getHeight n' = getHeight l + 1) \<and> n' \<noteq> Null"
      then obtain l' where l': "insertHelper l task (m, c) = (Inr l', (m(idT task \<mapsto> c), Suc c))"
        "avl l'" "getHeight l' = getHeight l \<or> getHeight l' = getHeight l + 1" by blast
      have "getHeight l' - getHeight r \<le> 2" "getHeight r - getHeight l' \<le> 2"
        using l'(3) b by auto
      from balance_avl [OF l'(2) ar this, of a t k h] obtain n' where
        n': "balance (updateHeight (Node a t k l' r h)) = Inr n'" "avl n'"
        "nodesOf n' = nodesOf l' @ (a, t, k) # nodesOf r"
        "getHeight n' = 1 + max (getHeight l') (getHeight r)
        \<or> (getHeight n' = max (getHeight l') (getHeight r)
            \<and> (getHeight l' = getHeight r + 2 \<or> getHeight r = getHeight l' + 2))"
        by blast
      have "n' \<noteq> Null" using n'(3) by auto
      moreover have "getHeight n' = h \<or> getHeight n' = h + 1"
        using n'(4) l'(3) b h by (auto simp: max_def split: if_splits)
      ultimately show ?thesis using 1 l'(1) n'(1,2)
        by (intro disjI1 exI [of _ n']) (simp del: balance.simps updateHeight.simps fun_upd_apply)
    qed
  next
    case 2
    from Node.IH(2) [OF ar] show ?thesis
    proof
      assume "insertHelper r task (m, c) = (Inl DuplicatePriorityKey, (m, c))"
      with 2 show ?thesis by simp
    next
      assume "\<exists>n'. insertHelper r task (m, c) = (Inr n', (m(idT task \<mapsto> c), Suc c)) \<and> avl n'
            \<and> (getHeight n' = getHeight r \<or> getHeight n' = getHeight r + 1) \<and> n' \<noteq> Null"
      then obtain r' where r': "insertHelper r task (m, c) = (Inr r', (m(idT task \<mapsto> c), Suc c))"
        "avl r'" "getHeight r' = getHeight r \<or> getHeight r' = getHeight r + 1" by blast
      have "getHeight l - getHeight r' \<le> 2" "getHeight r' - getHeight l \<le> 2"
        using r'(3) b by auto
      from balance_avl [OF al r'(2) this, of a t k h] obtain n' where
        n': "balance (updateHeight (Node a t k l r' h)) = Inr n'" "avl n'"
        "nodesOf n' = nodesOf l @ (a, t, k) # nodesOf r'"
        "getHeight n' = 1 + max (getHeight l) (getHeight r')
        \<or> (getHeight n' = max (getHeight l) (getHeight r')
            \<and> (getHeight l = getHeight r' + 2 \<or> getHeight r' = getHeight l + 2))"
        by blast
      have "n' \<noteq> Null" using n'(3) by auto
      moreover have "getHeight n' = h \<or> getHeight n' = h + 1"
        using n'(4) r'(3) b h by (auto simp: max_def split: if_splits)
      ultimately show ?thesis using 2 r'(1) n'(1,2)
        by (intro disjI1 exI [of _ n']) (simp del: balance.simps updateHeight.simps fun_upd_apply)
    qed
  next
    case 3
    then show ?thesis by simp
  qed
qed

lemma keysOf_simps [simp]:
  "keysOf Null = []"
  "keysOf (Node a t k l r h) = keysOf l @ k # keysOf r"
  by (simp_all add: keysOf_def)

lemma tasksOf_simps [simp]:
  "tasksOf Null = []"
  "tasksOf (Node a t k l r h) = tasksOf l @ t # tasksOf r"
  by (simp_all add: tasksOf_def)

lemma insertHelper_nodesOf:
  assumes "avl n" "sorted_wrt (<) (keysOf n)"
  shows "(priority task \<in> set (keysOf n) \<longrightarrow>
            insertHelper n task (m, c) = (Inl DuplicatePriorityKey, (m, c)))
       \<and> (priority task \<notin> set (keysOf n) \<longrightarrow>
            (\<exists>n'. insertHelper n task (m, c) = (Inr n', (m(idT task \<mapsto> c), Suc c))
               \<and> nodesOf n' = filter (\<lambda>x. snd (snd x) < priority task) (nodesOf n)
                    @ (c, task, priority task)
                    # filter (\<lambda>x. snd (snd x) > priority task) (nodesOf n)))"
  using assms
proof (induction n)
  case Null
  show ?case
    by (intro conjI impI exI [of _ "Node c task (priority task) Null Null 1"])
      (simp_all del: fun_upd_apply)
next
  case (Node a t k l r h)
  from Node.prems have al: "avl l" and ar: "avl r"
    and b: "getHeight l - getHeight r \<le> 1" "getHeight r - getHeight l \<le> 1"
    by auto
  from Node.prems(2) have sl: "sorted_wrt (<) (keysOf l)" and sr: "sorted_wrt (<) (keysOf r)"
    and lk: "\<forall>x \<in> set (keysOf l). x < k" and rk: "\<forall>x \<in> set (keysOf r). k < x"
    by (auto simp: sorted_wrt_append)
  have lk': "\<forall>x \<in> set (nodesOf l). snd (snd x) < k"
    and rk': "\<forall>x \<in> set (nodesOf r). k < snd (snd x)"
    using lk rk by (auto simp: keysOf_def)
  consider "priority task < k" | "priority task > k" | "priority task = k" by linarith
  then show ?case
  proof cases
    case 1
    have notr: "priority task \<notin> set (keysOf r)" using rk 1 by auto
    have fr: "filter (\<lambda>x. snd (snd x) < priority task) (nodesOf r) = []"
      "filter (\<lambda>x. snd (snd x) > priority task) (nodesOf r) = nodesOf r"
      using rk' 1 by (auto simp: filter_empty_conv filter_id_conv)
    show ?thesis
    proof (cases "priority task \<in> set (keysOf l)")
      case True
      with Node.IH(1) [OF al sl] have "insertHelper l task (m, c) = (Inl DuplicatePriorityKey, (m, c))"
        by simp
      with 1 True show ?thesis by simp
    next
      case False
      with Node.IH(1) [OF al sl] obtain l' where
        l': "insertHelper l task (m, c) = (Inr l', (m(idT task \<mapsto> c), Suc c))"
        "nodesOf l' = filter (\<lambda>x. snd (snd x) < priority task) (nodesOf l)
                    @ (c, task, priority task)
                    # filter (\<lambda>x. snd (snd x) > priority task) (nodesOf l)"
        by blast
      from insertHelper_avl [OF al, of task m c] l'(1) have
        al': "avl l'" and hl': "getHeight l' = getHeight l \<or> getHeight l' = getHeight l + 1"
        by auto
      have "getHeight l' - getHeight r \<le> 2" "getHeight r - getHeight l' \<le> 2"
        using hl' b by auto
      from balance_avl [OF al' ar this, of a t k h] obtain n' where
        n': "balance (updateHeight (Node a t k l' r h)) = Inr n'"
        "nodesOf n' = nodesOf l' @ (a, t, k) # nodesOf r"
        by blast
      have "insertHelper (Node a t k l r h) task (m, c) = (Inr n', (m(idT task \<mapsto> c), Suc c))"
        using 1 l'(1) n'(1) by (simp del: balance.simps updateHeight.simps fun_upd_apply)
      moreover have "nodesOf n' =
          filter (\<lambda>x. snd (snd x) < priority task) (nodesOf (Node a t k l r h))
            @ (c, task, priority task)
            # filter (\<lambda>x. snd (snd x) > priority task) (nodesOf (Node a t k l r h))"
        using n'(2) l'(2) fr 1 by simp
      moreover have "priority task \<notin> set (keysOf (Node a t k l r h))"
        using False notr 1 by simp
      ultimately show ?thesis by blast
    qed
  next
    case 2
    have notl: "priority task \<notin> set (keysOf l)" using lk 2 by auto
    have fl: "filter (\<lambda>x. snd (snd x) < priority task) (nodesOf l) = nodesOf l"
      "filter (\<lambda>x. snd (snd x) > priority task) (nodesOf l) = []"
      using lk' 2 by (auto simp: filter_empty_conv filter_id_conv)
    show ?thesis
    proof (cases "priority task \<in> set (keysOf r)")
      case True
      with Node.IH(2) [OF ar sr] have "insertHelper r task (m, c) = (Inl DuplicatePriorityKey, (m, c))"
        by simp
      with 2 True show ?thesis by simp
    next
      case False
      with Node.IH(2) [OF ar sr] obtain r' where
        r': "insertHelper r task (m, c) = (Inr r', (m(idT task \<mapsto> c), Suc c))"
        "nodesOf r' = filter (\<lambda>x. snd (snd x) < priority task) (nodesOf r)
                    @ (c, task, priority task)
                    # filter (\<lambda>x. snd (snd x) > priority task) (nodesOf r)"
        by blast
      from insertHelper_avl [OF ar, of task m c] r'(1) have
        ar': "avl r'" and hr': "getHeight r' = getHeight r \<or> getHeight r' = getHeight r + 1"
        by auto
      have "getHeight l - getHeight r' \<le> 2" "getHeight r' - getHeight l \<le> 2"
        using hr' b by auto
      from balance_avl [OF al ar' this, of a t k h] obtain n' where
        n': "balance (updateHeight (Node a t k l r' h)) = Inr n'"
        "nodesOf n' = nodesOf l @ (a, t, k) # nodesOf r'"
        by blast
      have "insertHelper (Node a t k l r h) task (m, c) = (Inr n', (m(idT task \<mapsto> c), Suc c))"
        using 2 r'(1) n'(1) by (simp del: balance.simps updateHeight.simps fun_upd_apply)
      moreover have "nodesOf n' =
          filter (\<lambda>x. snd (snd x) < priority task) (nodesOf (Node a t k l r h))
            @ (c, task, priority task)
            # filter (\<lambda>x. snd (snd x) > priority task) (nodesOf (Node a t k l r h))"
        using n'(2) r'(2) fl 2 by simp
      moreover have "priority task \<notin> set (keysOf (Node a t k l r h))"
        using False notl 2 by simp
      ultimately show ?thesis by blast
    qed
  next
    case 3
    then show ?thesis by simp
  qed
qed

section \<open>Rebuilding from an ascending list\<close>

lemma inOrder_tasksOf: "inOrder n acc = acc @ tasksOf n"
  by (induction n arbitrary: acc) simp_all

lemma listTasks_tasksOf: "listTasks tr = tasksOf (root tr)"
  by (simp add: listTasks_def inOrder_tasksOf)

lemma insertHelper_append:
  assumes "avl n" "sorted_wrt (<) (keysOf n)" "\<forall>k \<in> set (keysOf n). k < priority task"
  shows "\<exists>n'. insertHelper n task (m, c) = (Inr n', (m(idT task \<mapsto> c), Suc c))
     \<and> avl n' \<and> nodesOf n' = nodesOf n @ [(c, task, priority task)]"
proof -
  have notin: "priority task \<notin> set (keysOf n)" using assms(3) by auto
  have f: "filter (\<lambda>x. snd (snd x) < priority task) (nodesOf n) = nodesOf n"
    "filter (\<lambda>x. snd (snd x) > priority task) (nodesOf n) = []"
    using assms(3) by (auto simp: keysOf_def filter_empty_conv filter_id_conv)
  from insertHelper_nodesOf [OF assms(1,2), of task m c] notin f obtain n' where
    n': "insertHelper n task (m, c) = (Inr n', (m(idT task \<mapsto> c), Suc c))"
    "nodesOf n' = nodesOf n @ [(c, task, priority task)]"
    by auto
  from insertHelper_avl [OF assms(1), of task m c] n'(1) have "avl n'" by auto
  with n' show ?thesis by blast
qed

lemma rebuild_loop_ascending:
  assumes "avl (root tr)" "keysOf (root tr) = map priority (tasksOf (root tr))"
    "sorted_wrt (<) (map priority (tasksOf (root tr) @ ts))"
  shows "\<exists>tr'. rebuild_loop ts tr = (None, tr') \<and> tasksOf (root tr') = tasksOf (root tr) @ ts
     \<and> avl (root tr') \<and> keysOf (root tr') = map priority (tasksOf (root tr'))"
  using assms
proof (induction ts arbitrary: tr)
  case Nil
  then show ?case by simp
next
  case (Cons t ts)
  have s: "sorted_wrt (<) (keysOf (root tr))" "\<forall>k \<in> set (keysOf (root tr)). k < priority t"
    using Cons.prems(2,3) by (auto simp: sorted_wrt_append)
  from insertHelper_append [OF Cons.prems(1) s, of "idMap tr" "nextAddr tr"] obtain n' where
    n': "insertHelper (root tr) t (idMap tr, nextAddr tr)
          = (Inr n', ((idMap tr)(idT t \<mapsto> nextAddr tr), Suc (nextAddr tr)))"
    "avl n'" "nodesOf n' = nodesOf (root tr) @ [(nextAddr tr, t, priority t)]"
    by blast
  define tr1 where "tr1 = \<lparr>root = n', idMap = (idMap tr)(idT t \<mapsto> nextAddr tr),
    nextAddr = Suc (nextAddr tr)\<rparr>"
  have t1: "tasksOf (root tr1) = tasksOf (root tr) @ [t]"
    and k1: "keysOf (root tr1) = map priority (tasksOf (root tr1))"
    using n'(3) Cons.prems(2) by (simp_all add: tr1_def tasksOf_def keysOf_def)
  have "sorted_wrt (<) (map priority (tasksOf (root tr1) @ ts))"
    using Cons.prems(3) t1 by simp
  from Cons.IH [of tr1, OF _ k1 this] n'(2) obtain tr' where
    "rebuild_loop ts tr1 = (None, tr')" "tasksOf (root tr') = tasksOf (root tr1) @ ts"
    "avl (root tr')" "keysOf (root tr') = map priority (tasksOf (root tr'))"
    by (auto simp: tr1_def)
  moreover have "rebuild_loop (t # ts) tr = rebuild_loop ts tr1"
    using n'(1) by (simp add: tr1_def del: fun_upd_apply)
  ultimately show ?case using t1 by simp
qed

lemma rebuild_ascending:
  assumes "sorted_wrt (<) (map priority ts)"
  shows "\<exists>tr'. rebuild ts tr = (None, tr') \<and> listTasks tr' = ts \<and> avl (root tr')
     \<and> keysOf (root tr') = map priority (tasksOf (root tr'))"
  using rebuild_loop_ascending [of "tr\<lparr>root := Null, idMap := Map.empty\<rparr>" ts] assms
  by (simp add: rebuild_def listTasks_tasksOf)

section \<open>Deletion keeps the balance\<close>

lemma findMin_Node: "n \<noteq> Null \<Longrightarrow> \<exists>ma mt mk ml mr mh. findMin n = Node ma mt mk ml mr mh"
  by (induction n rule: findMin.induct) simp_all

lemma deleteHelper_avl:
  assumes "avl n"
  shows "\<exists>n' m'. deleteHelper n key m = (Inr n', m') \<and> avl n'
     \<and> (getHeight n = getHeight n' \<or> getHeight n = getHeight n' + 1)"
  using assms
proof (induction n arbitrary: key m)
  case Null
  then show ?case by simp
next
  case (Node a t k l r h)
  from Node.prems have al: "avl l" and ar: "avl r"
    and h: "h = 1 + max (getHeight l) (getHeight r)"
    and b: "getHeight l - getHeight r \<le> 1" "getHeight r - getHeight l \<le> 1"
    by auto
  have right: "\<exists>n' m'. (case deleteHelper r key' mm of
           (Inl e, m') \<Rightarrow> (Inl e, m')
         | (Inr r', m') \<Rightarrow> (balance (updateHeight (Node a t' k' l r' h)), m')) = (Inr n', m')
       \<and> avl n' \<and> (h = getHeight n' \<or> h = getHeight n' + 1)" for key' mm t' k'
  proof -
    from Node.IH(2) [OF ar, of key' mm] obtain r' m' where
      r': "deleteHelper r key' mm = (Inr r', m')" "avl r'"
      "getHeight r = getHeight r' \<or> getHeight r = getHeight r' + 1" by blast
    have "getHeight l - getHeight r' \<le> 2" "getHeight r' - getHeight l \<le> 2"
      using r'(3) b by auto
    from balance_avl [OF al r'(2) this, of a t' k' h] obtain n' where
      n': "balance (updateHeight (Node a t' k' l r' h)) = Inr n'" "avl n'"
      "getHeight n' = 1 + max (getHeight l) (getHeight r')
        \<or> (getHeight n' = max (getHeight l) (getHeight r')
            \<and> (getHeight l = getHeight r' + 2 \<or> getHeight r' = getHeight l + 2))"
      by blast
    have "h = getHeight n' \<or> h = getHeight n' + 1"
      using n'(3) r'(3) b h by (auto simp: max_def split: if_splits)
    with r'(1) n'(1,2) show ?thesis
      by (simp del: balance.simps updateHeight.simps)
  qed
  consider "key < k" | "key > k" | "key = k" by linarith
  then show ?case
  proof cases
    case 1
    from Node.IH(1) [OF al, of key m] obtain l' m' where
      l': "deleteHelper l key m = (Inr l', m')" "avl l'"
      "getHeight l = getHeight l' \<or> getHeight l = getHeight l' + 1" by blast
    have "getHeight l' - getHeight r \<le> 2" "getHeight r - getHeight l' \<le> 2"
      using l'(3) b by auto
    from balance_avl [OF l'(2) ar this, of a t k h] obtain n' where
      n': "balance (updateHeight (Node a t k l' r h)) = Inr n'" "avl n'"
      "getHeight n' = 1 + max (getHeight l') (getHeight r)
        \<or> (getHeight n' = max (getHeight l') (getHeight r)
            \<and> (getHeight l' = getHeight r + 2 \<or> getHeight r = getHeight l' + 2))"
      by blast
    have "h = getHeight n' \<or> h = getHeight n' + 1"
      using n'(3) l'(3) b h by (auto simp: max_def split: if_splits)
    with 1 l'(1) n'(1,2) show ?thesis
      by (simp del: balance.simps updateHeight.simps)
  next
    case 2
    with right [where key' = key and mm = m and t' = t and k' = k] show ?thesis
      by (simp del: balance.simps updateHeight.simps)
  next
    case 3
    show ?thesis
    proof (cases "l = Null \<or> r = Null")
      case True
      then show ?thesis
        using 3 al ar h avl_height_ge0 [OF al] avl_height_ge0 [OF ar] by (auto simp: Let_def)
    next
      case False
      then obtain ma mt mk ml mr mh where fm: "findMin r = Node ma mt mk ml mr mh"
        using findMin_Node [of r] by blast
      from right [where key' = mk and mm = "m(idT t := None)" and t' = mt and k' = mk] 3 False fm show ?thesis
        by (simp del: balance.simps updateHeight.simps add: Let_def)
    qed
  qed
qed

section \<open>Which errors the helpers can return\<close>

lemma rotateLeft_error: "rotateLeft n = Inl e \<Longrightarrow> e = NullDeref"
  by (cases n rule: rotateLeft.cases) simp_all

lemma rotateRight_error: "rotateRight n = Inl e \<Longrightarrow> e = NullDeref"
  by (cases n rule: rotateRight.cases) simp_all

lemma balance_error: "balance n = Inl e \<Longrightarrow> e = NullDeref"
proof (cases n)
  case Null
  assume "balance n = Inl e"
  with Null show ?thesis by simp
next
  case (Node a t k l r h)
  assume b: "balance n = Inl e"
  have "rotateLeftRight (Node a t k l r h) = Inl e \<Longrightarrow> e = NullDeref"
    using rotateLeft_error [of l] rotateRight_error
    by (auto split: sum.splits)
  moreover have "rotateRightLeft (Node a t k l r h) = Inl e \<Longrightarrow> e = NullDeref"
    using rotateRight_error [of r] rotateLeft_error
    by (auto split: sum.splits)
  ultimately show ?thesis
    using b Node rotateLeft_error [of "Node a t k l r h" e]
      rotateRight_error [of "Node a t k l r h" e]
    by (simp add: Let_def split: if_splits)
qed

lemma balance_not_dup: "balance n \<noteq> Inl DuplicatePriorityKey"
  using balance_error [of n DuplicatePriorityKey] by auto

lemma insertHelper_error:
  "insertHelper n task st = (Inl e, st') \<Longrightarrow> e = DuplicatePriorityKey \<or> e = NullDeref"
proof (induction n arbitrary: st')
  case Null
  then show ?case by (cases st) simp
next
  case (Node a t k l r h)
  consider "priority task < k" | "priority task > k" | "priority task = k" by linarith
  then show ?case
  proof cases
    case 1
    obtain res st1 where l: "insertHelper l task st = (res, st1)" by (cases "insertHelper l task st")
    show ?thesis
    proof (cases res)
      case (Inl e1)
      with Node.prems 1 l have "e1 = e" by simp
      with Node.IH(1) [of st1] l Inl show ?thesis by simp
    next
      case (Inr l')
      with Node.prems 1 l balance_error [of "updateHeight (Node a t k l' r h)" e] show ?thesis
        by (simp del: balance.simps updateHeight.simps)
    qed
  next
    case 2
    obtain res st1 where r: "insertHelper r task st = (res, st1)" by (cases "insertHelper r task st")
    show ?thesis
    proof (cases res)
      case (Inl e1)
      with Node.prems 2 r have "e1 = e" by simp
      with Node.IH(2) [of st1] r Inl show ?thesis by simp
    next
      case (Inr r')
      with Node.prems 2 r balance_error [of "updateHeight (Node a t k l r' h)" e] show ?thesis
        by (simp del: balance.simps updateHeight.simps)
    qed
  next
    case 3
    with Node.prems show ?thesis by simp
  qed
qed

lemma insertHelper_dup_state:
  "insertHelper n task st = (Inl DuplicatePriorityKey, st') \<Longrightarrow> st' = st"
proof (induction n arbitrary: st')
  case Null
  then show ?case by (cases st) simp
next
  case (Node a t k l r h)
  consider "priority task < k" | "priority task > k" | "priority task = k" by linarith
  then show ?case
  proof cases
    case 1
    obtain res st1 where l: "insertHelper l task st = (res, st1)" by (cases "insertHelper l task st")
    show ?thesis
    proof (cases res)
      case (Inl e)
      with Node.prems 1 l have "e = DuplicatePriorityKey" "st1 = st'" by simp_all
      with Node.IH(1) [of st1] l Inl show ?thesis by simp
    next
      case (Inr l')
      with Node.prems 1 l balance_not_dup [of "updateHeight (Node a t k l' r h)"] show ?thesis
        by (simp del: balance.simps updateHeight.simps)
    qed
  next
    case 2
    obtain res st1 where r: "insertHelper r task st = (res, st1)" by (cases "insertHelper r task st")
    show ?thesis
    proof (cases res)
      case (Inl e)
      with Node.prems 2 r have "e = DuplicatePriorityKey" "st1 = st'" by simp_all
      with Node.IH(2) [of st1] r Inl show ?thesis by simp
    next
      case (Inr r')
      with Node.prems 2 r balance_not_dup [of "updateHeight (Node a t k l r' h)"] show ?thesis
        by (simp del: balance.simps updateHeight.simps)
    qed
  next
    case 3
    with Node.prems show ?thesis by simp
  qed
qed

lemma deleteHelper_error: "deleteHelper n key m = (Inl e, m') \<Longrightarrow> e = NullDeref"
proof (induction n arbitrary: key m m')
  case Null
  then show ?case by simp
next
  case (Node a t k l r h)
  have right: "(case deleteHelper r key' mm of
           (Inl e, m') \<Rightarrow> (Inl e, m')
         | (Inr r', m') \<Rightarrow> (balance (updateHeight (Node a t' k' l r' h)), m')) = (Inl e, m')
       \<Longrightarrow> e = NullDeref" for key' mm t' k'
  proof -
    assume a: "(case deleteHelper r key' mm of
           (Inl e, m') \<Rightarrow> (Inl e, m')
         | (Inr r', m') \<Rightarrow> (balance (updateHeight (Node a t' k' l r' h)), m')) = (Inl e, m')"
    obtain res m1 where r: "deleteHelper r key' mm = (res, m1)" by (cases "deleteHelper r key' mm")
    show ?thesis
    proof (cases res)
      case (Inl e1)
      with a r have "e1 = e" by simp
      with Node.IH(2) [of key' mm m1] r Inl show ?thesis by simp
    next
      case (Inr r')
      with a r balance_error [of "updateHeight (Node a t' k' l r' h)" e] show ?thesis
        by (simp del: balance.simps updateHeight.simps)
    qed
  qed
  consider "key < k" | "key > k" | "key = k" by linarith
  then show ?case
  proof cases
    case 1
    obtain res m1 where l: "deleteHelper l key m = (res, m1)" by (cases "deleteHelper l key m")
    show ?thesis
    proof (cases res)
      case (Inl e1)
      with Node.prems 1 l have "e1 = e" by simp
      with Node.IH(1) [of key m m1] l Inl show ?thesis by simp
    next
      case (Inr l')
      with Node.prems 1 l balance_error [of "updateHeight (Node a t k l' r h)" e] show ?thesis
        by (simp del: balance.simps updateHeight.simps)
    qed
  next
    case 2
    with Node.prems right [where key' = key and mm = m and t' = t and k' = k] show ?thesis
      by (simp del: balance.simps updateHeight.simps)
  next
    case 3
    show ?thesis
    proof (cases "l = Null \<or> r = Null")
      case True
      with Node.prems 3 show ?thesis by (auto simp: Let_def split: if_splits)
    next
      case False
      show ?thesis
      proof (cases "findMin r")
        case Null
        with Node.prems 3 False show ?thesis by (simp add: Let_def)
      next
        case (Node ma mt mk ml mr mh)
        with Node.prems 3 False
          right [where key' = mk and mm = "m(idT t := None)" and t' = mt and k' = mk]
        show ?thesis
          by (simp del: balance.simps updateHeight.simps add: Let_def)
      qed
    qed
  qed
qed

lemma rebuild_loop_fail_prefix:
  "rebuild_loop ts tr = (Some DuplicatePriorityKey, tr') \<Longrightarrow>
     \<exists>j < length ts. rebuild_loop (take j ts) tr = (None, tr')"
proof (induction ts arbitrary: tr)
  case Nil
  then show ?case by simp
next
  case (Cons t ts)
  obtain res m n where ih: "insertHelper (root tr) t (idMap tr, nextAddr tr) = (res, (m, n))"
    by (metis surj_pair)
  show ?case
  proof (cases res)
    case (Inl e)
    with Cons.prems ih have e: "e = DuplicatePriorityKey" and tr': "tr' = tr\<lparr>idMap := m, nextAddr := n\<rparr>"
      by simp_all
    from insertHelper_dup_state [of "root tr" t "(idMap tr, nextAddr tr)" "(m, n)"] ih Inl e
    have "m = idMap tr" "n = nextAddr tr" by simp_all
    with tr' have "tr' = tr" by simp
    then have "rebuild_loop (take 0 (t # ts)) tr = (None, tr')" by simp
    then show ?thesis by blast
  next
    case (Inr r)
    with Cons.prems ih have "rebuild_loop ts \<lparr>root = r, idMap = m, nextAddr = n\<rparr>
        = (Some DuplicatePriorityKey, tr')" by simp
    from Cons.IH [OF this] obtain j where j: "j < length ts"
      "rebuild_loop (take j ts) \<lparr>root = r, idMap = m, nextAddr = n\<rparr> = (None, tr')" by blast
    have "rebuild_loop (take (Suc j) (t # ts)) tr = (None, tr')"
      using j(2) ih Inr by simp
    with j(1) show ?thesis by (intro exI [of _ "Suc j"]) simp
  qed
qed

section \<open>Sorting and renumbering lists of tasks\<close>

lemma std_sort_ok_mset: "std_sort_ok srt \<Longrightarrow> mset (srt f xs) = mset xs"
  by (simp add: std_sort_ok_def)

lemma std_sort_ok_set: "std_sort_ok srt \<Longrightarrow> set (srt f xs) = set xs"
  using std_sort_ok_mset [of srt f xs] by (metis set_mset_mset)

lemma std_sort_ok_length: "std_sort_ok srt \<Longrightarrow> length (srt f xs) = length xs"
  using std_sort_ok_mset [of srt f xs] by (metis size_mset)

lemma std_sort_ok_sorted: "std_sort_ok srt \<Longrightarrow> sorted (map f (srt f xs))"
  by (simp add: std_sort_ok_def)

lemma std_sort_ok_sort_key: "std_sort_ok sort_key"
  by (simp add: std_sort_ok_def)

lemma std_sort_ok_strict:
  assumes "std_sort_ok srt" "distinct (map f xs)"
  shows "sorted_wrt (<) (map f (srt f xs))"
proof -
  have "mset (map f (srt f xs)) = mset (map f xs)"
    using std_sort_ok_mset [OF assms(1), of f xs] by (metis mset_map)
  then have "distinct (map f (srt f xs))"
    using assms(2) by (metis mset_eq_imp_distinct_iff)
  with std_sort_ok_sorted [OF assms(1), of f xs] show ?thesis
    by (simp add: strict_sorted_iff)
qed

lemma map_priority_assignPriorities:
  "map priority (assignPriorities n xs) = [n..n + int (length xs) - 1]"
proof (induction xs arbitrary: n)
  case Nil
  then show ?case by simp
next
  case (Cons t ts)
  have "[n..n + int (length (t # ts)) - 1] = n # [n + 1..n + 1 + int (length ts) - 1]"
    by (subst upto_rec1) simp_all
  with Cons.IH [of "n + 1"] show ?case by simp
qed

lemma map_forget_assignPriorities: "map forget (assignPriorities n xs) = map forget xs"
  by (induction xs arbitrary: n) (simp_all add: forget_def)

lemma status_forget [simp]: "status (forget t) = status t"
  and remainingHours_forget [simp]: "remainingHours (forget t) = remainingHours t"
  and idT_forget [simp]: "idT (forget t) = idT t"
  by (simp_all add: forget_def)

lemma policyOrdered_forget: "policyOrdered (map forget xs) = policyOrdered xs"
  by (simp add: policyOrdered_def sorted_wrt_map)

lemma policyOrdered_assignPriorities:
  "policyOrdered (assignPriorities n xs) = policyOrdered xs"
  using policyOrdered_forget [of "assignPriorities n xs"] policyOrdered_forget [of xs]
  by (simp add: map_forget_assignPriorities)

lemma policyOrdered_incomplete:
  "\<forall>t \<in> set A. status t = ''incomplete'' \<Longrightarrow> sorted (map remainingHours A) \<Longrightarrow>
     policyOrdered A"
  unfolding policyOrdered_def by (induction A) auto

lemma policyOrdered_complete:
  "\<forall>t \<in> set B. status t \<noteq> ''incomplete'' \<Longrightarrow> policyOrdered B"
  unfolding policyOrdered_def by (induction B) auto

lemma policyOrdered_append:
  assumes "\<forall>t \<in> set A. status t = ''incomplete''" "sorted (map remainingHours A)"
    "\<forall>t \<in> set B. status t \<noteq> ''incomplete''"
  shows "policyOrdered (A @ B)"
  using policyOrdered_incomplete [OF assms(1,2)] policyOrdered_complete [OF assms(3)] assms(3)
  unfolding policyOrdered_def sorted_wrt_append by blast

lemma mset_filter_partition:
  "mset (filter P xs) + mset (filter (\<lambda>x. \<not> P x) xs) = mset xs"
  by (induction xs) simp_all

lemma renumberOnStatusChange_props:
  assumes "std_sort_ok srt"
  shows "map priority (renumberOnStatusChange srt tasks) = [1..int (length tasks)]"
    and "policyOrdered (renumberOnStatusChange srt tasks)"
    and "mset (map forget (renumberOnStatusChange srt tasks)) = mset (map forget tasks)"
proof -
  define A where "A = srt remainingHours (filter (\<lambda>t. status t = ''incomplete'') tasks)"
  define B where "B = srt priority (filter (\<lambda>t. status t \<noteq> ''incomplete'') tasks)"
  have r: "renumberOnStatusChange srt tasks = assignPriorities 1 (A @ B)"
    by (simp add: renumberOnStatusChange_def Let_def A_def B_def)
  have mA: "mset A = mset (filter (\<lambda>t. status t = ''incomplete'') tasks)"
    unfolding A_def by (rule std_sort_ok_mset [OF assms])
  have mB: "mset B = mset (filter (\<lambda>t. status t \<noteq> ''incomplete'') tasks)"
    unfolding B_def by (rule std_sort_ok_mset [OF assms])
  have m: "mset (A @ B) = mset tasks"
    using mset_filter_partition [of "\<lambda>t. status t = ''incomplete''" tasks]
    by (simp only: mset_append mA mB)
  from arg_cong [OF m, of size] have len: "length (A @ B) = length tasks"
    by (simp only: size_mset)
  have "map priority (assignPriorities 1 (A @ B)) = [1..int (length tasks)]"
    unfolding map_priority_assignPriorities len by simp
  then show "map priority (renumberOnStatusChange srt tasks) = [1..int (length tasks)]"
    by (simp only: r)
  have sA: "\<forall>t \<in> set A. status t = ''incomplete''"
    unfolding A_def std_sort_ok_set [OF assms] by simp
  have sB: "\<forall>t \<in> set B. status t \<noteq> ''incomplete''"
    unfolding B_def std_sort_ok_set [OF assms] by simp
  have oA: "sorted (map remainingHours A)"
    unfolding A_def by (rule std_sort_ok_sorted [OF assms])
  from policyOrdered_append [OF sA oA sB]
  show "policyOrdered (renumberOnStatusChange srt tasks)"
    by (simp only: r policyOrdered_assignPriorities)
  from arg_cong [OF m, of "image_mset forget"]
  show "mset (map forget (renumberOnStatusChange srt tasks)) = mset (map forget tasks)"
    by (simp only: r map_forget_assignPriorities mset_map)
qed

section \<open>What deletion removes\<close>

lemma findMin_first:
  "n \<noteq> Null \<Longrightarrow> \<exists>ma mt mk mr mh zs. findMin n = Node ma mt mk Null mr mh
      \<and> nodesOf n = (ma, mt, mk) # zs"
proof (induction n rule: findMin.induct)
  case 1
  then show ?case by simp
next
  case (2 a t k r h)
  then show ?case by simp
next
  case (3 a t k v va vb vc vd ve r h)
  then obtain ma mt mk mr mh zs where
    "findMin (Node v va vb vc vd ve) = Node ma mt mk Null mr mh"
    "nodesOf (Node v va vb vc vd ve) = (ma, mt, mk) # zs" by blast
  then have "findMin (Node a t k (Node v va vb vc vd ve) r h) = Node ma mt mk Null mr mh"
    "nodesOf (Node a t k (Node v va vb vc vd ve) r h) = (ma, mt, mk) # (zs @ (a, t, k) # nodesOf r)"
    by simp_all
  then show ?case by blast
qed

lemma sorted_keys_Node:
  assumes "sorted_wrt (<) (keysOf (Node a t k l r h))"
  shows "sorted_wrt (<) (keysOf l)" "sorted_wrt (<) (keysOf r)"
    "\<forall>x \<in> set (nodesOf l). snd (snd x) < k" "\<forall>x \<in> set (nodesOf r). k < snd (snd x)"
  using assms by (auto simp: sorted_wrt_append keysOf_def)

lemma deleteHelper_min:
  assumes "avl n" "sorted_wrt (<) (keysOf n)" "nodesOf n = (ma, mt, mk) # zs"
  shows "\<exists>n'. deleteHelper n mk m = (Inr n', m(idT mt := None)) \<and> nodesOf n' = zs"
  using assms
proof (induction n arbitrary: zs)
  case Null
  then show ?case by simp
next
  case (Node a t k l r h)
  from Node.prems(1) have al: "avl l" and ar: "avl r"
    and b: "getHeight l - getHeight r \<le> 1" "getHeight r - getHeight l \<le> 1"
    by auto
  note s = sorted_keys_Node [OF Node.prems(2)]
  show ?case
  proof (cases "l = Null")
    case True
    with Node.prems(3) show ?thesis by (simp add: Let_def del: fun_upd_apply)
  next
    case False
    then obtain zl where zl: "nodesOf l = (ma, mt, mk) # zl"
      using Node.prems(3) by (cases "nodesOf l") (auto dest: findMin_first)
    then have lt: "mk < k" using s(3) by simp
    from Node.IH(1) [OF al s(1) zl] obtain l' where
      l': "deleteHelper l mk m = (Inr l', m(idT mt := None))" "nodesOf l' = zl" by blast
    from deleteHelper_avl [OF al, of mk m] l'(1) have al': "avl l'"
      and hl': "getHeight l = getHeight l' \<or> getHeight l = getHeight l' + 1" by auto
    have "getHeight l' - getHeight r \<le> 2" "getHeight r - getHeight l' \<le> 2"
      using hl' b by auto
    from balance_avl [OF al' ar this, of a t k h] obtain n' where
      n': "balance (updateHeight (Node a t k l' r h)) = Inr n'"
      "nodesOf n' = nodesOf l' @ (a, t, k) # nodesOf r" by blast
    have "deleteHelper (Node a t k l r h) mk m = (Inr n', m(idT mt := None))"
      using lt l'(1) n'(1) by (simp del: balance.simps updateHeight.simps fun_upd_apply)
    moreover have "nodesOf n' = zs" using n'(2) l'(2) zl Node.prems(3) by simp
    ultimately show ?thesis by blast
  qed
qed

lemma deleteHelper_nodes:
  assumes "avl n" "sorted_wrt (<) (keysOf n)"
  shows "\<exists>n' m'. deleteHelper n key m = (Inr n', m')
     \<and> map snd (nodesOf n') = filter (\<lambda>x. snd x \<noteq> key) (map snd (nodesOf n))"
  using assms
proof (induction n arbitrary: key m)
  case Null
  then show ?case by simp
next
  case (Node a t k l r h)
  from Node.prems(1) have al: "avl l" and ar: "avl r"
    and b: "getHeight l - getHeight r \<le> 1" "getHeight r - getHeight l \<le> 1"
    by auto
  note s = sorted_keys_Node [OF Node.prems(2)]
  have fl: "key \<ge> k \<Longrightarrow> filter (\<lambda>x. snd x \<noteq> key) (map snd (nodesOf l)) = map snd (nodesOf l)"
    and fr: "key \<le> k \<Longrightarrow> filter (\<lambda>x. snd x \<noteq> key) (map snd (nodesOf r)) = map snd (nodesOf r)"
    using s(3,4) by (auto simp: filter_id_conv)
  consider "key < k" | "key > k" | "key = k" by linarith
  then show ?case
  proof cases
    case 1
    from Node.IH(1) [OF al s(1), of key m] obtain l' m' where
      l': "deleteHelper l key m = (Inr l', m')"
      "map snd (nodesOf l') = filter (\<lambda>x. snd x \<noteq> key) (map snd (nodesOf l))" by blast
    from deleteHelper_avl [OF al, of key m] l'(1) have al': "avl l'"
      and hl': "getHeight l = getHeight l' \<or> getHeight l = getHeight l' + 1" by auto
    have "getHeight l' - getHeight r \<le> 2" "getHeight r - getHeight l' \<le> 2"
      using hl' b by auto
    from balance_avl [OF al' ar this, of a t k h] obtain n' where
      n': "balance (updateHeight (Node a t k l' r h)) = Inr n'"
      "nodesOf n' = nodesOf l' @ (a, t, k) # nodesOf r" by blast
    have "deleteHelper (Node a t k l r h) key m = (Inr n', m')"
      using 1 l'(1) n'(1) by (simp del: balance.simps updateHeight.simps)
    moreover have "map snd (nodesOf n')
        = filter (\<lambda>x. snd x \<noteq> key) (map snd (nodesOf (Node a t k l r h)))"
      using n'(2) l'(2) fr 1 by simp
    ultimately show ?thesis by blast
  next
    case 2
    from Node.IH(2) [OF ar s(2), of key m] obtain r' m' where
      r': "deleteHelper r key m = (Inr r', m')"
      "map snd (nodesOf r') = filter (\<lambda>x. snd x \<noteq> key) (map snd (nodesOf r))" by blast
    from deleteHelper_avl [OF ar, of key m] r'(1) have ar': "avl r'"
      and hr': "getHeight r = getHeight r' \<or> getHeight r = getHeight r' + 1" by auto
    have "getHeight l - getHeight r' \<le> 2" "getHeight r' - getHeight l \<le> 2"
      using hr' b by auto
    from balance_avl [OF al ar' this, of a t k h] obtain n' where
      n': "balance (updateHeight (Node a t k l r' h)) = Inr n'"
      "nodesOf n' = nodesOf l @ (a, t, k) # nodesOf r'" by blast
    have "deleteHelper (Node a t k l r h) key m = (Inr n', m')"
      using 2 r'(1) n'(1) by (simp del: balance.simps updateHeight.simps)
    moreover have "map snd (nodesOf n')
        = filter (\<lambda>x. snd x \<noteq> key) (map snd (nodesOf (Node a t k l r h)))"
      using n'(2) r'(2) fl 2 by simp
    ultimately show ?thesis by blast
  next
    case 3
    show ?thesis
    proof (cases "l = Null \<or> r = Null")
      case True
      then show ?thesis using 3 fl fr by (auto simp: Let_def)
    next
      case False
      then obtain ma mt mk mr mh zs where fm: "findMin r = Node ma mt mk Null mr mh"
        and zs: "nodesOf r = (ma, mt, mk) # zs"
        using findMin_first [of r] by blast
      from deleteHelper_min [OF ar s(2) zs, of "m(idT t := None)"] obtain r' where
        r': "deleteHelper r mk (m(idT t := None)) = (Inr r', m(idT t := None, idT mt := None))"
        "nodesOf r' = zs" by blast
      from deleteHelper_avl [OF ar, of mk "m(idT t := None)"] r'(1) have ar': "avl r'"
        and hr': "getHeight r = getHeight r' \<or> getHeight r = getHeight r' + 1" by auto
      have "getHeight l - getHeight r' \<le> 2" "getHeight r' - getHeight l \<le> 2"
        using hr' b by auto
      from balance_avl [OF al ar' this, of a mt mk h] obtain n' where
        n': "balance (updateHeight (Node a mt mk l r' h)) = Inr n'"
        "nodesOf n' = nodesOf l @ (a, mt, mk) # nodesOf r'" by blast
      have "deleteHelper (Node a t k l r h) key m = (Inr n', m(idT t := None, idT mt := None))"
        using 3 False fm r'(1) n'(1)
        by (simp add: Let_def del: balance.simps updateHeight.simps fun_upd_apply)
      moreover have "map snd (nodesOf n')
          = filter (\<lambda>x. snd x \<noteq> key) (map snd (nodesOf (Node a t k l r h)))"
        using n'(2) r'(2) zs fl fr 3 by simp
      ultimately show ?thesis by blast
    qed
  qed
qed

section \<open>The rank of a new task\<close>

lemma firstLater_cases:
  "firstLater rh ts d = d \<or> firstLater rh ts d \<in> priority ` set ts"
  by (induction ts) auto

lemma sorted_le_last:
  "sorted_wrt (<) (map f xs) \<Longrightarrow> x \<in> set xs \<Longrightarrow> (f x :: int) \<le> f (last xs)"
proof (induction xs)
  case Nil
  then show ?case by simp
next
  case (Cons y ys)
  then show ?case by (cases "ys = []") (auto simp: less_imp_le)
qed

lemma rankForInsertion_shift:
  assumes "sorted_wrt (<) (map priority tasks)" "\<forall>t \<in> set tasks. 1 \<le> priority t"
  shows "\<exists>np. rankForInsertion ''incomplete'' rh tasks = (np, map (shiftFrom np) tasks)
     \<and> 1 \<le> np
     \<and> (np = 1 \<or> (tasks \<noteq> [] \<and> np = priority (last tasks) + 1) \<or> np \<in> priority ` set tasks)"
proof (cases "tasks = []")
  case True
  then show ?thesis by (simp add: rankForInsertion_def)
next
  case False
  consider (first) "rh < remainingHours (hd tasks)"
    | (final) "\<not> rh < remainingHours (hd tasks)" and "rh \<ge> remainingHours (last tasks)"
    | (inner) "\<not> rh < remainingHours (hd tasks)" and "\<not> rh \<ge> remainingHours (last tasks)"
    by blast
  then show ?thesis
  proof cases
    case first
    have "map (\<lambda>t. t\<lparr>priority := priority t + 1\<rparr>) tasks = map (shiftFrom 1) tasks"
      using assms(2) by (simp add: shiftFrom_def)
    with first False show ?thesis by (simp add: rankForInsertion_def)
  next
    case final
    have "\<forall>t \<in> set tasks. \<not> priority t \<ge> priority (last tasks) + 1"
      using sorted_le_last [OF assms(1)] by fastforce
    then have "tasks = map (shiftFrom (priority (last tasks) + 1)) tasks"
      by (simp add: shiftFrom_def map_idI)
    moreover have "1 \<le> priority (last tasks) + 1"
      using assms(2) False last_in_set [of tasks] by fastforce
    ultimately show ?thesis using final False by (auto simp: rankForInsertion_def)
  next
    case inner
    define np where "np = firstLater rh tasks 1"
    have "np = 1 \<or> np \<in> priority ` set tasks"
      unfolding np_def by (rule firstLater_cases)
    moreover from this have "1 \<le> np" using assms(2) by auto
    moreover have "rankForInsertion ''incomplete'' rh tasks = (np, map (shiftFrom np) tasks)"
      using inner False by (simp add: rankForInsertion_def Let_def np_def shiftFrom_def)
    ultimately show ?thesis by blast
  qed
qed

lemma forget_shiftFrom [simp]: "forget (shiftFrom np t) = forget t"
  by (simp add: shiftFrom_def forget_def)

lemma priority_shiftFrom:
  "priority (shiftFrom np t) = (if priority t \<ge> np then priority t + 1 else priority t)"
  by (simp add: shiftFrom_def)

lemma shiftFrom_sorted:
  assumes "sorted_wrt (<) (map priority tasks)"
  shows "sorted_wrt (<) (map priority (map (shiftFrom np) tasks))"
proof -
  have "sorted_wrt (\<lambda>a b. priority a < priority b) tasks"
    using assms by (simp add: sorted_wrt_map)
  then have "sorted_wrt (\<lambda>a b. priority (shiftFrom np a) < priority (shiftFrom np b)) tasks"
    by (rule sorted_wrt_mono_rel [rotated]) (simp add: priority_shiftFrom)
  then show ?thesis by (simp add: sorted_wrt_map)
qed

lemma shiftFrom_avoids: "priority (shiftFrom np t) \<noteq> np"
  by (simp add: priority_shiftFrom)

lemma insertList_eq:
  assumes "sorted_wrt (<) (map priority tasks)" "\<forall>t \<in> set tasks. 1 \<le> priority t"
  shows "\<exists>np. insertList srt i desc cat years months days hoursInput tasks
        = srt priority (map (shiftFrom np) tasks
            @ [newTask i desc cat years months days hoursInput tasks])
     \<and> priority (newTask i desc cat years months days hoursInput tasks) = np
     \<and> 1 \<le> np
     \<and> (np = 1 \<or> (tasks \<noteq> [] \<and> np = priority (last tasks) + 1) \<or> np \<in> priority ` set tasks)"
proof -
  from rankForInsertion_shift [OF assms,
      of "sint (computeRemainingHours years months days hoursInput)"]
  obtain np where np: "rankForInsertion ''incomplete''
        (sint (computeRemainingHours years months days hoursInput)) tasks
      = (np, map (shiftFrom np) tasks)" "1 \<le> np"
    "np = 1 \<or> (tasks \<noteq> [] \<and> np = priority (last tasks) + 1) \<or> np \<in> priority ` set tasks"
    by blast
  have "insertList srt i desc cat years months days hoursInput tasks
        = srt priority (map (shiftFrom np) tasks
            @ [newTask i desc cat years months days hoursInput tasks])"
    using np(1) by (simp add: insertList_def deadlineOf_def initialStatus_def)
  moreover have "priority (newTask i desc cat years months days hoursInput tasks) = np"
    using np(1) by (simp add: newTask_def deadlineOf_def initialStatus_def)
  ultimately show ?thesis using np(2,3) by blast
qed

lemma insertList_props:
  assumes "std_sort_ok srt" "sorted_wrt (<) (map priority tasks)"
    "\<forall>t \<in> set tasks. 1 \<le> priority t"
  shows "sorted_wrt (<) (map priority (insertList srt i desc cat years months days hoursInput tasks))"
    and "\<forall>t \<in> set (insertList srt i desc cat years months days hoursInput tasks). 1 \<le> priority t"
    and "mset (map forget (insertList srt i desc cat years months days hoursInput tasks))
      = mset (map forget tasks)
        + {#forget (newTask i desc cat years months days hoursInput tasks)#}"
proof -
  define nt where "nt = newTask i desc cat years months days hoursInput tasks"
  from insertList_eq [OF assms(2,3), of srt i desc cat years months days hoursInput]
  obtain np where np: "insertList srt i desc cat years months days hoursInput tasks
        = srt priority (map (shiftFrom np) tasks @ [nt])" "priority nt = np" "1 \<le> np"
    unfolding nt_def by blast
  have "distinct (map priority (map (shiftFrom np) tasks))"
    using shiftFrom_sorted [OF assms(2), of np] by (simp add: strict_sorted_iff)
  moreover have "np \<notin> set (map priority (map (shiftFrom np) tasks))"
    by (auto simp: priority_shiftFrom)
  ultimately have "distinct (map priority (map (shiftFrom np) tasks @ [nt]))"
    using np(2) by simp
  from std_sort_ok_strict [OF assms(1) this]
  show "sorted_wrt (<) (map priority (insertList srt i desc cat years months days hoursInput tasks))"
    by (simp only: np(1))
  have "\<forall>t \<in> set (map (shiftFrom np) tasks @ [nt]). 1 \<le> priority t"
    using assms(3) np(2,3) by (auto simp: priority_shiftFrom)
  then show "\<forall>t \<in> set (insertList srt i desc cat years months days hoursInput tasks). 1 \<le> priority t"
    by (simp only: np(1) std_sort_ok_set [OF assms(1)])
  from arg_cong [OF std_sort_ok_mset [OF assms(1), of priority "map (shiftFrom np) tasks @ [nt]"],
      of "image_mset forget"]
  show "mset (map forget (insertList srt i desc cat years months days hoursInput tasks))
      = mset (map forget tasks) + {#forget (newTask i desc cat years months days hoursInput tasks)#}"
    by (simp add: np(1) nt_def multiset.map_comp comp_def)
qed

lemma shift_image_dense:
  assumes "1 \<le> np" "np \<le> N + 1" "0 \<le> N"
  shows "insert np ((\<lambda>q. if q \<ge> np then q + 1 else q) ` {1..N}) = {1..N + (1::int)}"
proof (rule set_eqI)
  fix x
  show "x \<in> insert np ((\<lambda>q. if q \<ge> np then q + 1 else q) ` {1..N}) \<longleftrightarrow> x \<in> {1..N + 1}"
  proof
    assume "x \<in> insert np ((\<lambda>q. if q \<ge> np then q + 1 else q) ` {1..N})"
    then show "x \<in> {1..N + 1}" using assms by (auto split: if_splits)
  next
    assume x: "x \<in> {1..N + 1}"
    consider "x = np" | "x < np" | "x > np" by linarith
    then show "x \<in> insert np ((\<lambda>q. if q \<ge> np then q + 1 else q) ` {1..N})"
    proof cases
      case 1
      then show ?thesis by simp
    next
      case 2
      then have "x \<in> {1..N}" "x = (if x \<ge> np then x + 1 else x)" using x assms by auto
      then have "x \<in> (\<lambda>q. if q \<ge> np then q + 1 else q) ` {1..N}" by (rule rev_image_eqI)
      then show ?thesis by (rule insertI2)
    next
      case 3
      then have "x - 1 \<in> {1..N}" "x = (if x - 1 \<ge> np then x - 1 + 1 else x - 1)"
        using x assms by auto
      then have "x \<in> (\<lambda>q. if q \<ge> np then q + 1 else q) ` {1..N}" by (rule rev_image_eqI)
      then show ?thesis by (rule insertI2)
    qed
  qed
qed

lemma insertList_dense:
  assumes "std_sort_ok srt" "map priority tasks = [1..int (length tasks)]"
  shows "map priority (insertList srt i desc cat years months days hoursInput tasks)
     = [1..int (length tasks) + 1]"
proof -
  define N where "N = int (length tasks)"
  define nt where "nt = newTask i desc cat years months days hoursInput tasks"
  have s: "sorted_wrt (<) (map priority tasks)"
    using assms(2) by (simp add: strict_sorted_iff)
  have p: "\<forall>t \<in> set tasks. 1 \<le> priority t"
  proof
    fix t assume "t \<in> set tasks"
    then have "priority t \<in> set (map priority tasks)" by simp
    then show "1 \<le> priority t" unfolding assms(2) by simp
  qed
  have ps: "priority ` set tasks = {1..N}"
    using arg_cong [OF assms(2), of set] by (simp add: N_def)
  from insertList_eq [OF s p, of srt i desc cat years months days hoursInput]
  obtain np where np: "insertList srt i desc cat years months days hoursInput tasks
        = srt priority (map (shiftFrom np) tasks @ [nt])" "priority nt = np" "1 \<le> np"
    "np = 1 \<or> (tasks \<noteq> [] \<and> np = priority (last tasks) + 1) \<or> np \<in> priority ` set tasks"
    unfolding nt_def by blast
  have "tasks \<noteq> [] \<Longrightarrow> priority (last tasks) \<in> {1..N}"
    using ps last_in_set [of tasks] by blast
  then have le: "np \<le> N + 1" using np(4) ps N_def by auto
  have "map priority (map (shiftFrom np) tasks)
      = map (\<lambda>q. if q \<ge> np then q + 1 else q) (map priority tasks)"
    by (simp add: priority_shiftFrom)
  from arg_cong [OF this, of set]
  have "priority ` shiftFrom np ` set tasks
      = (\<lambda>q. if q \<ge> np then q + 1 else q) ` priority ` set tasks"
    by (simp only: set_map)
  then have "set (map priority (insertList srt i desc cat years months days hoursInput tasks))
      = insert np ((\<lambda>q. if q \<ge> np then q + 1 else q) ` priority ` set tasks)"
    unfolding np(1) using np(2)
    by (simp add: std_sort_ok_set [OF assms(1)] image_Un)
  also have "\<dots> = {1..N + 1}"
    unfolding ps using shift_image_dense [OF np(3) le] by (simp add: N_def)
  finally have st: "set (map priority (insertList srt i desc cat years months days hoursInput tasks))
      = set [1..N + 1]" by simp
  from insertList_props(1) [OF assms(1) s p, of i desc cat years months days hoursInput]
  have "sorted (map priority (insertList srt i desc cat years months days hoursInput tasks))"
    "distinct (map priority (insertList srt i desc cat years months days hoursInput tasks))"
    by (simp_all add: strict_sorted_iff)
  from sorted_distinct_set_unique [OF this _ _ st]
  show ?thesis by (simp add: N_def)
qed

section \<open>What the three menu operations commit\<close>

lemma setStatus_fst: "fst (setStatus i s xs) = (i \<in> idT ` set xs)"
  by (induction xs) (auto split: prod.splits)

lemma setStatus_length: "length (snd (setStatus i s xs)) = length xs"
  by (induction xs) (auto split: prod.splits)

lemma setStatus_split:
  "i \<notin> idT ` set pre \<Longrightarrow> idT t = i \<Longrightarrow>
     setStatus i s (pre @ t # post) = (True, pre @ t\<lparr>status := s\<rparr> # post)"
  by (induction pre) auto

lemma treeInv_listTasks:
  assumes "treeInv tr"
  shows "sorted_wrt (<) (map priority (listTasks tr))"
proof -
  from assms have s: "sorted_wrt (<) (keysOf (root tr))"
    and k: "keysOf (root tr) = map priority (tasksOf (root tr))"
    unfolding treeInv_def by blast+
  from s show ?thesis unfolding k listTasks_tasksOf .
qed

lemma rebuild_ascending_inv:
  assumes "sorted_wrt (<) (map priority ts)"
  shows "\<exists>tr'. rebuild ts tr = (None, tr') \<and> listTasks tr' = ts \<and> treeInv tr'"
proof -
  from rebuild_ascending [OF assms, of tr] obtain tr' where
    tr': "rebuild ts tr = (None, tr')" "listTasks tr' = ts" "avl (root tr')"
    "keysOf (root tr') = map priority (tasksOf (root tr'))" by blast
  then have "treeInv tr'" using assms by (auto simp: treeInv_def listTasks_tasksOf)
  with tr' show ?thesis by blast
qed

lemma insertChoice_ok:
  assumes "std_sort_ok srt" "search i tr = None"
    "sorted_wrt (<) (map priority (listTasks tr))" "\<forall>t \<in> set (listTasks tr). 1 \<le> priority t"
  shows "\<exists>tr'. insertChoice srt i desc cat years months days hoursInput tr = (None, tr')
     \<and> listTasks tr' = insertList srt i desc cat years months days hoursInput (listTasks tr)
     \<and> treeInv tr'"
  using rebuild_ascending_inv [OF insertList_props(1) [OF assms(1,3,4)], of i desc cat years months days hoursInput tr]
    assms(2)
  by (simp add: insertChoice_def)

lemma updateChoice_ok:
  assumes "std_sort_ok srt" "search i tr \<noteq> None" "i \<in> idT ` set (listTasks tr)"
  shows "\<exists>tr'. updateChoice srt i completeAnswer tr = (None, tr')
     \<and> listTasks tr' = renumberOnStatusChange srt
          (snd (setStatus i (if completeAnswer = CHR ''y'' then ''complete'' else ''incomplete'')
             (listTasks tr)))
     \<and> treeInv tr'"
proof -
  define ns where "ns = (if completeAnswer = CHR ''y'' then ''complete'' else ''incomplete'')"
  define tasks1 where "tasks1 = snd (setStatus i ns (listTasks tr))"
  have f: "setStatus i ns (listTasks tr) = (True, tasks1)"
    using setStatus_fst [of i ns "listTasks tr"] assms(3) by (simp add: tasks1_def prod_eq_iff)
  have "sorted_wrt (<) (map priority (renumberOnStatusChange srt tasks1))"
    unfolding renumberOnStatusChange_props(1) [OF assms(1)] by (simp add: strict_sorted_iff)
  from rebuild_ascending_inv [OF this, of tr] obtain tr' where
    "rebuild (renumberOnStatusChange srt tasks1) tr = (None, tr')"
    "listTasks tr' = renumberOnStatusChange srt tasks1" "treeInv tr'" by blast
  moreover have "updateChoice srt i completeAnswer tr
      = rebuild (renumberOnStatusChange srt tasks1) tr"
    using assms(2) f by (cases "search i tr") (simp_all add: updateChoice_def Let_def ns_def)
  ultimately show ?thesis by (simp add: tasks1_def ns_def)
qed

lemma keyed_filter:
  assumes "\<forall>x \<in> set L. snd x = priority (fst x)"
  shows "map fst (filter (\<lambda>x. snd x \<noteq> key) L) = filter (\<lambda>t. priority t \<noteq> key) (map fst L)"
  using assms by (induction L) auto

lemma deleteTask_ok:
  assumes "treeInv tr" "idMap tr i = Some p" "nodeAt (root tr) p = Some (t, key)"
  shows "\<exists>tr'. deleteTask i tr = (None, tr')
     \<and> listTasks tr' = filter (\<lambda>t. priority t \<noteq> key) (listTasks tr)
     \<and> treeInv tr'"
proof -
  from assms(1) have a: "avl (root tr)" and s: "sorted_wrt (<) (keysOf (root tr))"
    and k: "keysOf (root tr) = map priority (tasksOf (root tr))"
    unfolding treeInv_def by blast+
  from deleteHelper_nodes [OF a s, of key "idMap tr"] obtain n' m' where
    d: "deleteHelper (root tr) key (idMap tr) = (Inr n', m')"
    "map snd (nodesOf n') = filter (\<lambda>x. snd x \<noteq> key) (map snd (nodesOf (root tr)))" by blast
  from deleteHelper_avl [OF a, of key "idMap tr"] d(1) have a': "avl n'" by auto
  have kd: "\<forall>x \<in> set (map snd (nodesOf (root tr))). snd x = priority (fst x)"
    using k by (auto simp: keysOf_def tasksOf_def)
  have tm: "tasksOf n = map fst (map snd (nodesOf n))" for n
    by (simp add: tasksOf_def)
  have t': "tasksOf n' = filter (\<lambda>t. priority t \<noteq> key) (tasksOf (root tr))"
    unfolding tm d(2) by (rule keyed_filter [OF kd])
  have "keysOf n' = map snd (map snd (nodesOf n'))" by (simp add: keysOf_def)
  also have "\<dots> = filter (\<lambda>q. q \<noteq> key) (keysOf (root tr))"
    unfolding d(2) by (simp add: keysOf_def filter_map comp_def)
  finally have k': "keysOf n' = filter (\<lambda>q. q \<noteq> key) (keysOf (root tr))" .
  have "keysOf n' = map priority (tasksOf n')"
    unfolding k' t' k by (simp add: filter_map comp_def)
  moreover have "sorted_wrt (<) (keysOf n')"
    unfolding k' using s by (rule sorted_wrt_filter)
  ultimately have "treeInv (tr\<lparr>root := n', idMap := m'\<rparr>)"
    using a' by (simp add: treeInv_def)
  moreover have "deleteTask i tr = (None, tr\<lparr>root := n', idMap := m'\<rparr>)"
    using assms(2,3) d(1) by (simp add: deleteTask_def)
  moreover have "listTasks (tr\<lparr>root := n', idMap := m'\<rparr>)
      = filter (\<lambda>t. priority t \<noteq> key) (listTasks tr)"
    using t' by (simp add: listTasks_tasksOf)
  ultimately show ?thesis by blast
qed

lemma deleteChoice_ok:
  assumes "treeInv tr" "idMap tr i = Some p" "nodeAt (root tr) p = Some (t, key)"
  shows "\<exists>tr'. deleteChoice i tr = (None, tr')
     \<and> listTasks tr' = filter (\<lambda>t. priority t \<noteq> key) (listTasks tr)
     \<and> treeInv tr'"
  using deleteTask_ok [OF assms] by (auto simp: deleteChoice_def)

section \<open>Every reachable state is a balanced search tree\<close>

lemma sorted_insert_filter:
  assumes "sorted_wrt (<) (ks :: int list)"
  shows "sorted_wrt (<) (filter (\<lambda>k. k < p) ks @ p # filter (\<lambda>k. p < k) ks)"
  using assms by (auto simp: sorted_wrt_append sorted_wrt_filter)

lemma insertHelper_treeInv:
  assumes "avl n" "sorted_wrt (<) (keysOf n)" "keysOf n = map priority (tasksOf n)"
    "insertHelper n task (m, c) = (Inr n', st')"
  shows "avl n' \<and> sorted_wrt (<) (keysOf n') \<and> keysOf n' = map priority (tasksOf n')"
proof -
  from insertHelper_avl [OF assms(1), of task m c] assms(4) have a': "avl n'" by auto
  have notin: "priority task \<notin> set (keysOf n)"
    using insertHelper_nodesOf [OF assms(1,2), of task m c] assms(4) by auto
  with insertHelper_nodesOf [OF assms(1,2), of task m c] assms(4)
  have nodes: "nodesOf n' = filter (\<lambda>x. snd (snd x) < priority task) (nodesOf n)
      @ (c, task, priority task) # filter (\<lambda>x. snd (snd x) > priority task) (nodesOf n)"
    by auto
  have "keysOf n' = filter (\<lambda>k. k < priority task) (keysOf n)
      @ priority task # filter (\<lambda>k. priority task < k) (keysOf n)"
    unfolding keysOf_def nodes by (simp add: filter_map comp_def)
  then have s': "sorted_wrt (<) (keysOf n')"
    using sorted_insert_filter [OF assms(2), of "priority task"] by simp
  have "\<forall>x \<in> set (nodesOf n). snd (snd x) = priority (fst (snd x))"
    using assms(3) by (simp add: keysOf_def tasksOf_def)
  then have "\<forall>x \<in> set (nodesOf n'). snd (snd x) = priority (fst (snd x))"
    unfolding nodes by auto
  then have "keysOf n' = map priority (tasksOf n')"
    by (simp add: keysOf_def tasksOf_def)
  with a' s' show ?thesis by blast
qed

lemma insertHelper_step_treeInv:
  assumes "treeInv tr"
  shows "case insertHelper (root tr) task (idMap tr, nextAddr tr) of
           (Inl e, (m, n)) \<Rightarrow> e = DuplicatePriorityKey \<and> m = idMap tr \<and> n = nextAddr tr
         | (Inr r, (m, n)) \<Rightarrow> treeInv \<lparr>root = r, idMap = m, nextAddr = n\<rparr>"
proof -
  from assms have a: "avl (root tr)" and s: "sorted_wrt (<) (keysOf (root tr))"
    and k: "keysOf (root tr) = map priority (tasksOf (root tr))"
    unfolding treeInv_def by blast+
  from insertHelper_avl [OF a, of task "idMap tr" "nextAddr tr"] show ?thesis
  proof
    assume "insertHelper (root tr) task (idMap tr, nextAddr tr)
        = (Inl DuplicatePriorityKey, (idMap tr, nextAddr tr))"
    then show ?thesis by simp
  next
    assume "\<exists>n'. insertHelper (root tr) task (idMap tr, nextAddr tr)
        = (Inr n', ((idMap tr)(idT task \<mapsto> nextAddr tr), Suc (nextAddr tr))) \<and> avl n'
        \<and> (getHeight n' = getHeight (root tr) \<or> getHeight n' = getHeight (root tr) + 1)
        \<and> n' \<noteq> Null"
    then obtain n' where n': "insertHelper (root tr) task (idMap tr, nextAddr tr)
        = (Inr n', ((idMap tr)(idT task \<mapsto> nextAddr tr), Suc (nextAddr tr)))" by blast
    from insertHelper_treeInv [OF a s k n']
    have a': "avl n'" and s': "sorted_wrt (<) (keysOf n')"
      and k': "keysOf n' = map priority (tasksOf n')" by blast+
    have "treeInv \<lparr>root = n', idMap = (idMap tr)(idT task \<mapsto> nextAddr tr),
        nextAddr = Suc (nextAddr tr)\<rparr>"
      unfolding treeInv_def AVLTree.select_convs using a' s' k' by blast
    with n' show ?thesis by (simp del: fun_upd_apply)
  qed
qed

lemma treeInv_idMap_update [simp]:
  "treeInv (tr\<lparr>idMap := m, nextAddr := n\<rparr>) = treeInv tr"
  "treeInv (tr\<lparr>idMap := m\<rparr>) = treeInv tr"
  by (simp_all add: treeInv_def)

lemma insert_task_treeInv: "treeInv tr \<Longrightarrow> treeInv (snd (insert_task task tr))"
  using insertHelper_step_treeInv [of tr task]
  by (auto simp: insert_task_def split: prod.splits sum.splits)

lemma rebuild_loop_treeInv: "treeInv tr \<Longrightarrow> treeInv (snd (rebuild_loop ts tr))"
proof (induction ts arbitrary: tr)
  case Nil
  then show ?case by simp
next
  case (Cons t ts)
  from insertHelper_step_treeInv [OF Cons.prems, of t] Cons.IH Cons.prems show ?case
    by (auto split: prod.splits sum.splits)
qed

lemma rebuild_treeInv: "treeInv (snd (rebuild ts tr))"
  unfolding rebuild_def by (rule rebuild_loop_treeInv) (simp add: treeInv_def)

lemma deleteTask_treeInv:
  assumes "treeInv tr"
  shows "treeInv (snd (deleteTask i tr))"
proof (cases "idMap tr i")
  case None
  with assms show ?thesis by (simp add: deleteTask_def)
next
  case (Some p)
  show ?thesis
  proof (cases "nodeAt (root tr) p")
    case None
    with Some assms show ?thesis by (simp add: deleteTask_def)
  next
    case (Some tk)
    obtain t key where "tk = (t, key)" by (cases tk)
    with Some \<open>idMap tr i = Some p\<close> deleteTask_ok [OF assms, of i p t key] show ?thesis
      by auto
  qed
qed

lemma reachable_treeInv: "reachable tr \<Longrightarrow> treeInv tr"
proof (induction rule: reachable.induct)
  case start
  show ?case by (simp add: treeInv_def emptyTree_def)
next
  case (ins tr task)
  then show ?case by (simp add: insert_task_treeInv)
next
  case (reb tr tasks)
  show ?case by (rule rebuild_treeInv)
next
  case (del tr i)
  then show ?case by (simp add: deleteTask_treeInv)
qed

lemma reachable_listTasks_ascending:
  "reachable tr \<Longrightarrow> sorted_wrt (<) (map priority (listTasks tr))"
  by (rule treeInv_listTasks [OF reachable_treeInv])

section \<open>Height and size of a balanced tree\<close>

lemma avl_getHeight_depth: "avl n \<Longrightarrow> getHeight n = int (depth n)"
  by (induction n) auto

lemma minNodes_step: "minNodes h \<le> minNodes (Suc h)"
  by (induction h rule: minNodes.induct) simp_all

lemma minNodes_mono: "h \<le> h' \<Longrightarrow> minNodes h \<le> minNodes h'"
  by (rule lift_Suc_mono_le [of minNodes]) (simp_all add: minNodes_step)

lemma avl_minNodes: "avl n \<Longrightarrow> minNodes (depth n) \<le> length (nodesOf n)"
proof (induction n)
  case Null
  then show ?case by simp
next
  case (Node a t k l r h)
  then have il: "minNodes (depth l) \<le> length (nodesOf l)"
    and ir: "minNodes (depth r) \<le> length (nodesOf r)"
    and b: "int (depth l) - int (depth r) \<le> 1" "int (depth r) - int (depth l) \<le> 1"
    by (auto simp: avl_getHeight_depth)
  show ?case
  proof (cases "depth r \<le> depth l")
    case True
    show ?thesis
    proof (cases "depth l")
      case 0
      with True show ?thesis by simp
    next
      case (Suc d)
      then have "d \<le> depth r" using b by simp
      from minNodes_mono [OF this] il ir Suc True show ?thesis by (simp add: max_def)
    qed
  next
    case False
    then obtain d where d: "depth r = Suc d" by (cases "depth r") auto
    then have "d \<le> depth l" using b by simp
    from minNodes_mono [OF this] il ir d False show ?thesis by (simp add: max_def)
  qed
qed

text \<open>The least size grows by a factor of at least 21/13 with each level.\<close>

lemma minNodes_growth: "(21 / 13 :: real) ^ h \<le> real (minNodes h) + 1"
proof (induction h rule: minNodes.induct)
  case 1
  show ?case by simp
next
  case 2
  show ?case by simp
next
  case (3 h)
  have "(21 / 13 :: real) ^ Suc (Suc h) = (21 / 13) ^ 2 * (21 / 13) ^ h"
    by (simp add: power2_eq_square)
  also have "\<dots> \<le> (21 / 13 + 1) * (21 / 13) ^ h"
    by (rule mult_right_mono) (simp_all add: power2_eq_square)
  also have "\<dots> = (21 / 13) ^ Suc h + (21 / 13) ^ h"
    by (simp add: algebra_simps)
  also have "\<dots> \<le> (real (minNodes (Suc h)) + 1) + (real (minNodes h) + 1)"
    by (intro add_mono "3.IH")
  also have "\<dots> = real (minNodes (Suc (Suc h))) + 1"
    by simp
  finally show ?case .
qed

lemma log2_growth: "11 / 16 \<le> log 2 (21 / 13 :: real)"
proof -
  have "(2 :: real) ^ 11 \<le> (21 / 13) ^ 16" by (simp add: power_divide)
  then have "log 2 ((2 :: real) ^ 11) \<le> log 2 ((21 / 13) ^ 16)"
    by (subst log_le_cancel_iff) simp_all
  moreover have "log 2 ((2 :: real) ^ 11) = real 11 * log 2 2"
    by (rule log_nat_power) simp
  moreover have "log 2 ((21 / 13 :: real) ^ 16) = real 16 * log 2 (21 / 13)"
    by (rule log_nat_power) simp
  ultimately have "real 11 * log 2 2 \<le> real 16 * log 2 (21 / 13 :: real)"
    by (simp only:)
  then show ?thesis by simp
qed

lemma avl_depth_bound:
  assumes "avl n" "length (nodesOf n) < 2 ^ 64"
  shows "int (depth n) \<le> \<lceil>1.44 * log 2 (real (length (nodesOf n)) + 2)\<rceil>"
proof -
  define d where "d = depth n"
  define N where "N = length (nodesOf n)"
  define L where "L = log 2 (real N + 2)"
  have "(21 / 13 :: real) ^ d \<le> real (minNodes d) + 1" by (rule minNodes_growth)
  also have "\<dots> \<le> real N + 1"
    using avl_minNodes [OF assms(1)] by (simp add: d_def N_def)
  finally have g: "(21 / 13 :: real) ^ d \<le> real N + 1" .
  have pos: "(0 :: real) < (21 / 13) ^ d" by simp
  have "log 2 ((21 / 13 :: real) ^ d) \<le> log 2 (real N + 1)"
    using g pos by (subst log_le_cancel_iff) simp_all
  then have dl: "real d * log 2 (21 / 13 :: real) \<le> log 2 (real N + 1)"
    by (simp add: log_nat_power)
  have "real d * (11 / 16) \<le> real d * log 2 (21 / 13 :: real)"
    by (rule mult_left_mono [OF log2_growth]) simp
  with dl have d1: "real d * (11 / 16) \<le> log 2 (real N + 1)" by linarith
  have "real N + 1 \<le> 2 ^ 64"
  proof -
    have "N + 1 \<le> 2 ^ 64" using assms(2) by (simp add: N_def)
    then have "real (N + 1) \<le> real (2 ^ 64)" by (rule of_nat_mono)
    then show ?thesis by simp
  qed
  then have "log 2 (real N + 1) \<le> log 2 (2 ^ 64)"
    by (subst log_le_cancel_iff) simp_all
  moreover have "log 2 ((2 :: real) ^ 64) = real 64 * log 2 2"
    by (rule log_nat_power) simp
  ultimately have "log 2 (real N + 1) \<le> real 64 * log 2 2" by (simp only:)
  then have "log 2 (real N + 1) \<le> 64" by simp
  with d1 have small: "real d < 100" by linarith
  have "log 2 (real N + 1) < L"
    unfolding L_def by (subst log_less_cancel_iff) simp_all
  with d1 have "real d * (11 / 16) < L" by linarith
  with small have "real d - 1 < (36 / 25) * L" by linarith
  moreover have "(36 / 25 :: real) = 1.44" by simp
  ultimately have "real d - 1 < 1.44 * L" by (simp only:)
  then have "real_of_int (int d - 1) < 1.44 * L" by simp
  then have "int d - 1 < \<lceil>1.44 * L\<rceil>" by (simp only: less_ceiling_iff)
  then show ?thesis by (simp add: d_def L_def N_def)
qed

section \<open>The menu operations stay within the reachable states\<close>

lemma reachable_insertChoice:
  "reachable tr \<Longrightarrow> reachable (snd (insertChoice srt i desc cat years months days hoursInput tr))"
  by (simp add: insertChoice_def reachable.reb)

lemma reachable_updateChoice:
  "reachable tr \<Longrightarrow> reachable (snd (updateChoice srt i completeAnswer tr))"
  by (simp add: updateChoice_def Let_def reachable.reb split: prod.splits)

lemma snd_deleteChoice: "snd (deleteChoice i tr) = snd (deleteTask i tr)"
  by (simp add: deleteChoice_def split: prod.splits option.splits error.splits)

lemma reachable_deleteChoice: "reachable tr \<Longrightarrow> reachable (snd (deleteChoice i tr))"
  by (simp add: snd_deleteChoice reachable.del)

lemma reachable_scenarioC: "reachable scenarioC"
  unfolding scenarioC_def scenarioB_def scenarioA_def
  by (intro reachable_deleteChoice reachable_updateChoice reachable_insertChoice reachable.start)

section \<open>The identifier map holds no stale pointer\<close>

lemma removal_left:
  assumes "removal key ns m ns' m'" "key \<notin> snd ` snd ` set rest"
  shows "removal key (ns @ rest) m (ns' @ rest) m'"
  using assms(1) unfolding removal_def
proof (elim disjE exE conjE)
  assume "key \<notin> snd ` snd ` set ns" "ns' = ns" "m' = m"
  with assms(2) show "(key \<notin> snd ` snd ` set (ns @ rest) \<and> ns' @ rest = ns @ rest \<and> m' = m)
     \<or> (\<exists>xs a t ys. ns @ rest = xs @ (a, t, key) # ys \<and> ns' @ rest = xs @ ys
           \<and> m' = m(idT t := None))
     \<or> (\<exists>xs a t pm mt mk zs. ns @ rest = xs @ (a, t, key) # (pm, mt, mk) # zs
           \<and> ns' @ rest = xs @ (a, mt, mk) # zs \<and> m' = m(idT t := None, idT mt := None))"
    by auto
next
  fix xs a t ys
  assume "ns = xs @ (a, t, key) # ys" "ns' = xs @ ys" "m' = m(idT t := None)"
  then have "ns @ rest = xs @ (a, t, key) # (ys @ rest) \<and> ns' @ rest = xs @ (ys @ rest)
      \<and> m' = m(idT t := None)" by simp
  then show "(key \<notin> snd ` snd ` set (ns @ rest) \<and> ns' @ rest = ns @ rest \<and> m' = m)
     \<or> (\<exists>xs a t ys. ns @ rest = xs @ (a, t, key) # ys \<and> ns' @ rest = xs @ ys
           \<and> m' = m(idT t := None))
     \<or> (\<exists>xs a t pm mt mk zs. ns @ rest = xs @ (a, t, key) # (pm, mt, mk) # zs
           \<and> ns' @ rest = xs @ (a, mt, mk) # zs \<and> m' = m(idT t := None, idT mt := None))"
    by blast
next
  fix xs a t pm mt mk zs
  assume "ns = xs @ (a, t, key) # (pm, mt, mk) # zs" "ns' = xs @ (a, mt, mk) # zs"
    "m' = m(idT t := None, idT mt := None)"
  then have "ns @ rest = xs @ (a, t, key) # (pm, mt, mk) # (zs @ rest)
      \<and> ns' @ rest = xs @ (a, mt, mk) # (zs @ rest)
      \<and> m' = m(idT t := None, idT mt := None)" by simp
  then show "(key \<notin> snd ` snd ` set (ns @ rest) \<and> ns' @ rest = ns @ rest \<and> m' = m)
     \<or> (\<exists>xs a t ys. ns @ rest = xs @ (a, t, key) # ys \<and> ns' @ rest = xs @ ys
           \<and> m' = m(idT t := None))
     \<or> (\<exists>xs a t pm mt mk zs. ns @ rest = xs @ (a, t, key) # (pm, mt, mk) # zs
           \<and> ns' @ rest = xs @ (a, mt, mk) # zs \<and> m' = m(idT t := None, idT mt := None))"
    by blast
qed

lemma removal_right:
  assumes "removal key ns m ns' m'" "key \<notin> snd ` snd ` set front"
  shows "removal key (front @ ns) m (front @ ns') m'"
  using assms(1) unfolding removal_def
proof (elim disjE exE conjE)
  assume "key \<notin> snd ` snd ` set ns" "ns' = ns" "m' = m"
  with assms(2) show "(key \<notin> snd ` snd ` set (front @ ns) \<and> front @ ns' = front @ ns \<and> m' = m)
     \<or> (\<exists>xs a t ys. front @ ns = xs @ (a, t, key) # ys \<and> front @ ns' = xs @ ys
           \<and> m' = m(idT t := None))
     \<or> (\<exists>xs a t pm mt mk zs. front @ ns = xs @ (a, t, key) # (pm, mt, mk) # zs
           \<and> front @ ns' = xs @ (a, mt, mk) # zs \<and> m' = m(idT t := None, idT mt := None))"
    by auto
next
  fix xs a t ys
  assume "ns = xs @ (a, t, key) # ys" "ns' = xs @ ys" "m' = m(idT t := None)"
  then have "front @ ns = (front @ xs) @ (a, t, key) # ys \<and> front @ ns' = (front @ xs) @ ys
      \<and> m' = m(idT t := None)" by simp
  then show "(key \<notin> snd ` snd ` set (front @ ns) \<and> front @ ns' = front @ ns \<and> m' = m)
     \<or> (\<exists>xs a t ys. front @ ns = xs @ (a, t, key) # ys \<and> front @ ns' = xs @ ys
           \<and> m' = m(idT t := None))
     \<or> (\<exists>xs a t pm mt mk zs. front @ ns = xs @ (a, t, key) # (pm, mt, mk) # zs
           \<and> front @ ns' = xs @ (a, mt, mk) # zs \<and> m' = m(idT t := None, idT mt := None))"
    by blast
next
  fix xs a t pm mt mk zs
  assume "ns = xs @ (a, t, key) # (pm, mt, mk) # zs" "ns' = xs @ (a, mt, mk) # zs"
    "m' = m(idT t := None, idT mt := None)"
  then have "front @ ns = (front @ xs) @ (a, t, key) # (pm, mt, mk) # zs
      \<and> front @ ns' = (front @ xs) @ (a, mt, mk) # zs
      \<and> m' = m(idT t := None, idT mt := None)" by simp
  then show "(key \<notin> snd ` snd ` set (front @ ns) \<and> front @ ns' = front @ ns \<and> m' = m)
     \<or> (\<exists>xs a t ys. front @ ns = xs @ (a, t, key) # ys \<and> front @ ns' = xs @ ys
           \<and> m' = m(idT t := None))
     \<or> (\<exists>xs a t pm mt mk zs. front @ ns = xs @ (a, t, key) # (pm, mt, mk) # zs
           \<and> front @ ns' = xs @ (a, mt, mk) # zs \<and> m' = m(idT t := None, idT mt := None))"
    by blast
qed

lemma deleteHelper_removal:
  assumes "avl n" "sorted_wrt (<) (keysOf n)"
  shows "\<exists>n' m'. deleteHelper n key m = (Inr n', m')
     \<and> removal key (nodesOf n) m (nodesOf n') m'"
  using assms
proof (induction n arbitrary: key m)
  case Null
  show ?case by (simp add: removal_def)
next
  case (Node a t k l r h)
  from Node.prems(1) have al: "avl l" and ar: "avl r"
    and b: "getHeight l - getHeight r \<le> 1" "getHeight r - getHeight l \<le> 1"
    by auto
  note s = sorted_keys_Node [OF Node.prems(2)]
  consider "key < k" | "key > k" | "key = k" by linarith
  then show ?case
  proof cases
    case 1
    from Node.IH(1) [OF al s(1), of key m] obtain l' m' where
      l': "deleteHelper l key m = (Inr l', m')"
      "removal key (nodesOf l) m (nodesOf l') m'" by blast
    from deleteHelper_avl [OF al, of key m] l'(1) have al': "avl l'"
      and hl': "getHeight l = getHeight l' \<or> getHeight l = getHeight l' + 1" by auto
    have "getHeight l' - getHeight r \<le> 2" "getHeight r - getHeight l' \<le> 2"
      using hl' b by auto
    from balance_avl [OF al' ar this, of a t k h] obtain n' where
      n': "balance (updateHeight (Node a t k l' r h)) = Inr n'"
      "nodesOf n' = nodesOf l' @ (a, t, k) # nodesOf r" by blast
    have d: "deleteHelper (Node a t k l r h) key m = (Inr n', m')"
      using 1 l'(1) n'(1) by (simp del: balance.simps updateHeight.simps)
    have "key \<notin> snd ` snd ` set ((a, t, k) # nodesOf r)"
      using 1 s(4) by auto
    from removal_left [OF l'(2) this]
    have "removal key (nodesOf (Node a t k l r h)) m (nodesOf n') m'"
      by (simp add: n'(2))
    with d show ?thesis by blast
  next
    case 2
    from Node.IH(2) [OF ar s(2), of key m] obtain r' m' where
      r': "deleteHelper r key m = (Inr r', m')"
      "removal key (nodesOf r) m (nodesOf r') m'" by blast
    from deleteHelper_avl [OF ar, of key m] r'(1) have ar': "avl r'"
      and hr': "getHeight r = getHeight r' \<or> getHeight r = getHeight r' + 1" by auto
    have "getHeight l - getHeight r' \<le> 2" "getHeight r' - getHeight l \<le> 2"
      using hr' b by auto
    from balance_avl [OF al ar' this, of a t k h] obtain n' where
      n': "balance (updateHeight (Node a t k l r' h)) = Inr n'"
      "nodesOf n' = nodesOf l @ (a, t, k) # nodesOf r'" by blast
    have d: "deleteHelper (Node a t k l r h) key m = (Inr n', m')"
      using 2 r'(1) n'(1) by (simp del: balance.simps updateHeight.simps)
    have "key \<notin> snd ` snd ` set (nodesOf l @ [(a, t, k)])"
      using 2 s(3) by auto
    from removal_right [OF r'(2) this]
    have "removal key (nodesOf (Node a t k l r h)) m (nodesOf n') m'"
      by (simp add: n'(2))
    with d show ?thesis by blast
  next
    case 3
    show ?thesis
    proof (cases "l = Null \<or> r = Null")
      case True
      show ?thesis
      proof (cases "l = Null")
        case True
        have "deleteHelper (Node a t k l r h) key m = (Inr r, m(idT t := None))"
          using 3 True by (simp add: Let_def del: fun_upd_apply)
        moreover have "nodesOf (Node a t k l r h) = [] @ (a, t, key) # nodesOf r
            \<and> nodesOf r = [] @ nodesOf r \<and> m(idT t := None) = m(idT t := None)"
          using 3 True by simp
        then have "removal key (nodesOf (Node a t k l r h)) m (nodesOf r) (m(idT t := None))"
          unfolding removal_def by blast
        ultimately show ?thesis by blast
      next
        case False
        with True have rn: "r = Null" by simp
        have "deleteHelper (Node a t k l r h) key m = (Inr l, m(idT t := None))"
          using 3 False rn by (simp add: Let_def del: fun_upd_apply)
        moreover have "nodesOf (Node a t k l r h) = nodesOf l @ (a, t, key) # []
            \<and> nodesOf l = nodesOf l @ [] \<and> m(idT t := None) = m(idT t := None)"
          using 3 rn by simp
        then have "removal key (nodesOf (Node a t k l r h)) m (nodesOf l) (m(idT t := None))"
          unfolding removal_def by blast
        ultimately show ?thesis by blast
      qed
    next
      case False
      then obtain ma mt mk mr mh zs where fm: "findMin r = Node ma mt mk Null mr mh"
        and zs: "nodesOf r = (ma, mt, mk) # zs"
        using findMin_first [of r] by blast
      from deleteHelper_min [OF ar s(2) zs, of "m(idT t := None)"] obtain r' where
        r': "deleteHelper r mk (m(idT t := None)) = (Inr r', m(idT t := None, idT mt := None))"
        "nodesOf r' = zs" by blast
      from deleteHelper_avl [OF ar, of mk "m(idT t := None)"] r'(1) have ar': "avl r'"
        and hr': "getHeight r = getHeight r' \<or> getHeight r = getHeight r' + 1" by auto
      have "getHeight l - getHeight r' \<le> 2" "getHeight r' - getHeight l \<le> 2"
        using hr' b by auto
      from balance_avl [OF al ar' this, of a mt mk h] obtain n' where
        n': "balance (updateHeight (Node a mt mk l r' h)) = Inr n'"
        "nodesOf n' = nodesOf l @ (a, mt, mk) # nodesOf r'" by blast
      have d: "deleteHelper (Node a t k l r h) key m
          = (Inr n', m(idT t := None, idT mt := None))"
        using 3 False fm r'(1) n'(1)
        by (simp add: Let_def del: balance.simps updateHeight.simps fun_upd_apply)
      have "nodesOf (Node a t k l r h) = nodesOf l @ (a, t, key) # (ma, mt, mk) # zs
          \<and> nodesOf n' = nodesOf l @ (a, mt, mk) # zs
          \<and> m(idT t := None, idT mt := None) = m(idT t := None, idT mt := None)"
        using 3 zs n'(2) r'(2) by simp
      then have "removal key (nodesOf (Node a t k l r h)) m (nodesOf n')
          (m(idT t := None, idT mt := None))"
        unfolding removal_def by blast
      with d show ?thesis by blast
    qed
  qed
qed

lemma removal_entries:
  assumes "removal key ns m ns' m'"
    "\<forall>i p. m i = Some p \<longrightarrow> (\<exists>t k. (p, t, k) \<in> set ns \<and> idT t = i)"
  shows "\<forall>i p. m' i = Some p \<longrightarrow> (\<exists>t k. (p, t, k) \<in> set ns' \<and> idT t = i)"
  using assms(1) unfolding removal_def
proof (elim disjE exE conjE)
  assume "ns' = ns" "m' = m"
  with assms(2) show ?thesis by simp
next
  fix xs a t ys
  assume ns: "ns = xs @ (a, t, key) # ys" and ns': "ns' = xs @ ys" and m': "m' = m(idT t := None)"
  show ?thesis
  proof (intro allI impI)
    fix i p assume e: "m' i = Some p"
    then have "i \<noteq> idT t" "m i = Some p" using m' by (auto split: if_splits)
    with assms(2) obtain u k where "(p, u, k) \<in> set ns" "idT u = i" by blast
    with \<open>i \<noteq> idT t\<close> have "(p, u, k) \<in> set ns'" unfolding ns ns' by auto
    with \<open>idT u = i\<close> show "\<exists>t k. (p, t, k) \<in> set ns' \<and> idT t = i" by blast
  qed
next
  fix xs a t pm mt mk zs
  assume ns: "ns = xs @ (a, t, key) # (pm, mt, mk) # zs"
    and ns': "ns' = xs @ (a, mt, mk) # zs"
    and m': "m' = m(idT t := None, idT mt := None)"
  show ?thesis
  proof (intro allI impI)
    fix i p assume e: "m' i = Some p"
    then have "i \<noteq> idT t" "i \<noteq> idT mt" "m i = Some p" using m' by (auto split: if_splits)
    with assms(2) obtain u k where "(p, u, k) \<in> set ns" "idT u = i" by blast
    with \<open>i \<noteq> idT t\<close> \<open>i \<noteq> idT mt\<close> have "(p, u, k) \<in> set ns'" unfolding ns ns' by auto
    with \<open>idT u = i\<close> show "\<exists>t k. (p, t, k) \<in> set ns' \<and> idT t = i" by blast
  qed
qed

lemma removal_addresses:
  assumes "removal key ns m ns' m'" "distinct (map fst ns)"
  shows "distinct (map fst ns') \<and> fst ` set ns' \<subseteq> fst ` set ns"
  using assms unfolding removal_def by (elim disjE exE conjE) auto

lemma nodeAt_None: "p \<notin> fst ` set (nodesOf n) \<Longrightarrow> nodeAt n p = None"
  by (induction n) (auto simp: image_iff)

lemma nodeAt_Some:
  "distinct (map fst (nodesOf n)) \<Longrightarrow> (p, t, k) \<in> set (nodesOf n) \<Longrightarrow> nodeAt n p = Some (t, k)"
proof (induction n)
  case Null
  then show ?case by simp
next
  case (Node a t0 k0 l r h)
  from Node.prems(1) have dl: "distinct (map fst (nodesOf l))"
    and dr: "distinct (map fst (nodesOf r))"
    and al: "a \<notin> fst ` set (nodesOf l)" and ar: "a \<notin> fst ` set (nodesOf r)"
    and lr: "fst ` set (nodesOf l) \<inter> fst ` set (nodesOf r) = {}"
    by auto
  from Node.prems(2) consider "(p, t, k) \<in> set (nodesOf l)" | "(p, t, k) = (a, t0, k0)"
    | "(p, t, k) \<in> set (nodesOf r)" by auto
  then show ?case
  proof cases
    case 1
    then have "p \<in> fst ` set (nodesOf l)" by force
    with al have "p \<noteq> a" by auto
    with Node.IH(1) [OF dl 1] show ?thesis by simp
  next
    case 2
    then show ?thesis by simp
  next
    case 3
    then have pr: "p \<in> fst ` set (nodesOf r)" by force
    with ar have "p \<noteq> a" by auto
    moreover from pr lr have "p \<notin> fst ` set (nodesOf l)" by auto
    then have "nodeAt l p = None" by (rule nodeAt_None)
    ultimately show ?thesis using Node.IH(2) [OF dr 3] by simp
  qed
qed

lemma distinct_split_filter:
  assumes "distinct (map f xs)" "\<And>x. \<not> (P x \<and> Q x)"
  shows "distinct (map f (filter P xs @ filter Q xs))"
  using assms(1)
proof (induction xs)
  case Nil
  then show ?case by simp
next
  case (Cons x xs)
  then show ?case using assms(2) [of x] by (auto simp: image_iff)
qed

lemma insert_step_mapInv:
  assumes "treeInv tr" "mapInv tr"
    "insertHelper (root tr) task (idMap tr, nextAddr tr) = (Inr r, (m, n))"
  shows "mapInv \<lparr>root = r, idMap = m, nextAddr = n\<rparr>"
proof -
  from assms(1) have a: "avl (root tr)" and s: "sorted_wrt (<) (keysOf (root tr))"
    unfolding treeInv_def by blast+
  from assms(2) have d: "distinct (map fst (nodesOf (root tr)))"
    and f: "\<forall>x \<in> set (nodesOf (root tr)). fst x < nextAddr tr"
    and e: "\<forall>i p. idMap tr i = Some p \<longrightarrow>
          (\<exists>t k. (p, t, k) \<in> set (nodesOf (root tr)) \<and> idT t = i)"
    unfolding mapInv_def by blast+
  have notin: "priority task \<notin> set (keysOf (root tr))"
    using insertHelper_nodesOf [OF a s, of task "idMap tr" "nextAddr tr"] assms(3) by auto
  with insertHelper_nodesOf [OF a s, of task "idMap tr" "nextAddr tr"] assms(3)
  have m: "m = (idMap tr)(idT task \<mapsto> nextAddr tr)" and n: "n = Suc (nextAddr tr)"
    and nodes: "nodesOf r = filter (\<lambda>x. snd (snd x) < priority task) (nodesOf (root tr))
      @ (nextAddr tr, task, priority task)
      # filter (\<lambda>x. snd (snd x) > priority task) (nodesOf (root tr))"
    by auto
  have st: "set (nodesOf r) = insert (nextAddr tr, task, priority task) (set (nodesOf (root tr)))"
    unfolding nodes using notin by (auto simp: keysOf_def image_iff)
  have fresh: "nextAddr tr \<notin> fst ` set (nodesOf (root tr))" using f by auto
  have "distinct (map fst (filter (\<lambda>x. snd (snd x) < priority task) (nodesOf (root tr))
      @ filter (\<lambda>x. snd (snd x) > priority task) (nodesOf (root tr))))"
    by (rule distinct_split_filter [OF d]) simp
  then have d': "distinct (map fst (nodesOf r))"
    unfolding nodes using fresh by (auto simp: image_iff)
  have f': "\<forall>x \<in> set (nodesOf r). fst x < n"
    unfolding st n using f by (auto simp: less_Suc_eq)
  have e': "\<forall>i p. m i = Some p \<longrightarrow> (\<exists>t k. (p, t, k) \<in> set (nodesOf r) \<and> idT t = i)"
  proof (intro allI impI)
    fix i p assume mi: "m i = Some p"
    show "\<exists>t k. (p, t, k) \<in> set (nodesOf r) \<and> idT t = i"
    proof (cases "i = idT task")
      case True
      with mi have "p = nextAddr tr" unfolding m by simp
      with True show ?thesis unfolding st by blast
    next
      case False
      with mi have "idMap tr i = Some p" unfolding m by simp
      with e show ?thesis unfolding st by blast
    qed
  qed
  from d' f' e' show ?thesis by (simp add: mapInv_def)
qed

lemma insert_task_mapInv:
  assumes "treeInv tr" "mapInv tr"
  shows "mapInv (snd (insert_task task tr))"
proof (cases "idMap tr (idT task) \<noteq> None")
  case True
  with assms(2) show ?thesis by (simp add: insert_task_def)
next
  case False
  obtain res m n where ih: "insertHelper (root tr) task (idMap tr, nextAddr tr) = (res, (m, n))"
    by (metis surj_pair)
  show ?thesis
  proof (cases res)
    case (Inl e)
    with insertHelper_step_treeInv [OF assms(1), of task] ih
    have "m = idMap tr" "n = nextAddr tr" by simp_all
    with False ih Inl assms(2) show ?thesis by (simp add: insert_task_def)
  next
    case (Inr r)
    with insert_step_mapInv [OF assms, of task r m n] ih False show ?thesis
      by (simp add: insert_task_def)
  qed
qed

lemma rebuild_loop_mapInv:
  "treeInv tr \<Longrightarrow> mapInv tr \<Longrightarrow> mapInv (snd (rebuild_loop ts tr))"
proof (induction ts arbitrary: tr)
  case Nil
  then show ?case by simp
next
  case (Cons t ts)
  obtain res m n where ih: "insertHelper (root tr) t (idMap tr, nextAddr tr) = (res, (m, n))"
    by (metis surj_pair)
  show ?case
  proof (cases res)
    case (Inl e)
    with insertHelper_step_treeInv [OF Cons.prems(1), of t] ih
    have "m = idMap tr" "n = nextAddr tr" by simp_all
    with ih Inl Cons.prems(2) show ?thesis by simp
  next
    case (Inr r)
    with insertHelper_step_treeInv [OF Cons.prems(1), of t] ih
    have ti: "treeInv \<lparr>root = r, idMap = m, nextAddr = n\<rparr>" by simp
    from insert_step_mapInv [OF Cons.prems, of t r m n] ih Inr
    have "mapInv \<lparr>root = r, idMap = m, nextAddr = n\<rparr>" by simp
    from Cons.IH [OF ti this] ih Inr show ?thesis by simp
  qed
qed

lemma rebuild_mapInv: "mapInv (snd (rebuild ts tr))"
  unfolding rebuild_def
  by (rule rebuild_loop_mapInv) (simp_all add: treeInv_def mapInv_def)

lemma deleteTask_mapInv:
  assumes "treeInv tr" "mapInv tr"
  shows "mapInv (snd (deleteTask i tr))"
proof (cases "idMap tr i")
  case None
  with assms(2) show ?thesis by (simp add: deleteTask_def)
next
  case (Some p)
  show ?thesis
  proof (cases "nodeAt (root tr) p")
    case None
    with Some assms(2) show ?thesis by (simp add: deleteTask_def)
  next
    case (Some tk)
    obtain t key where tk: "tk = (t, key)" by (cases tk)
    from assms(1) have a: "avl (root tr)" and s: "sorted_wrt (<) (keysOf (root tr))"
      unfolding treeInv_def by blast+
    from assms(2) have d: "distinct (map fst (nodesOf (root tr)))"
      and f: "\<forall>x \<in> set (nodesOf (root tr)). fst x < nextAddr tr"
      and e: "\<forall>i p. idMap tr i = Some p \<longrightarrow>
          (\<exists>t k. (p, t, k) \<in> set (nodesOf (root tr)) \<and> idT t = i)"
      unfolding mapInv_def by blast+
    from deleteHelper_removal [OF a s, of key "idMap tr"] obtain n' m' where
      dh: "deleteHelper (root tr) key (idMap tr) = (Inr n', m')"
      and rm: "removal key (nodesOf (root tr)) (idMap tr) (nodesOf n') m'" by blast
    from removal_addresses [OF rm d] have d': "distinct (map fst (nodesOf n'))"
      and sub: "fst ` set (nodesOf n') \<subseteq> fst ` set (nodesOf (root tr))" by blast+
    from sub f have f': "\<forall>x \<in> set (nodesOf n'). fst x < nextAddr tr" by fastforce
    from removal_entries [OF rm e]
    have e': "\<forall>i p. m' i = Some p \<longrightarrow> (\<exists>t k. (p, t, k) \<in> set (nodesOf n') \<and> idT t = i)" .
    have "snd (deleteTask i tr) = tr\<lparr>root := n', idMap := m'\<rparr>"
      using \<open>idMap tr i = Some p\<close> Some tk dh by (simp add: deleteTask_def)
    with d' f' e' show ?thesis by (simp add: mapInv_def)
  qed
qed

lemma reachable_mapInv: "reachable tr \<Longrightarrow> mapInv tr"
proof (induction rule: reachable.induct)
  case start
  show ?case by (simp add: mapInv_def emptyTree_def)
next
  case (ins tr task)
  then show ?case by (simp add: insert_task_mapInv reachable_treeInv)
next
  case (reb tr tasks)
  show ?case by (rule rebuild_mapInv)
next
  case (del tr i)
  then show ?case by (simp add: deleteTask_mapInv reachable_treeInv)
qed

lemma rebuild_loop_result:
  "treeInv tr \<Longrightarrow> fst (rebuild_loop ts tr) = None \<or> fst (rebuild_loop ts tr) = Some DuplicatePriorityKey"
proof (induction ts arbitrary: tr)
  case Nil
  then show ?case by simp
next
  case (Cons t ts)
  obtain res m n where ih: "insertHelper (root tr) t (idMap tr, nextAddr tr) = (res, (m, n))"
    by (metis surj_pair)
  show ?case
  proof (cases res)
    case (Inl e)
    with insertHelper_step_treeInv [OF Cons.prems, of t] ih have "e = DuplicatePriorityKey"
      by simp
    with ih Inl show ?thesis by simp
  next
    case (Inr r)
    with insertHelper_step_treeInv [OF Cons.prems, of t] ih
    have "treeInv \<lparr>root = r, idMap = m, nextAddr = n\<rparr>" by simp
    from Cons.IH [OF this] ih Inr show ?thesis by simp
  qed
qed

text \<open>
  In a reachable state no operation reads through \<open>nullptr\<close> or through a pointer of
  \<open>idMap\<close> whose node is gone, and an id that \<open>idMap\<close> holds leads to a listed task with
  that id.
\<close>

lemma reachable_defined:
  assumes "reachable tr"
  shows "fst (insert_task task tr) = None \<or> fst (insert_task task tr) = Some DuplicateId
      \<or> fst (insert_task task tr) = Some DuplicatePriorityKey"
    and "fst (rebuild ts tr) = None \<or> fst (rebuild ts tr) = Some DuplicatePriorityKey"
    and "fst (deleteTask i tr) = None \<or> fst (deleteTask i tr) = Some NotFound"
    and "searchTask i tr = Inr None
      \<or> (\<exists>t. searchTask i tr = Inr (Some t) \<and> idT t = i \<and> t \<in> set (listTasks tr))"
proof -
  note ti = reachable_treeInv [OF assms]
  from ti have a: "avl (root tr)" and s: "sorted_wrt (<) (keysOf (root tr))"
    unfolding treeInv_def by blast+
  from reachable_mapInv [OF assms] have d: "distinct (map fst (nodesOf (root tr)))"
    and e: "\<forall>i p. idMap tr i = Some p \<longrightarrow>
          (\<exists>t k. (p, t, k) \<in> set (nodesOf (root tr)) \<and> idT t = i)"
    unfolding mapInv_def by blast+
  show "fst (insert_task task tr) = None \<or> fst (insert_task task tr) = Some DuplicateId
      \<or> fst (insert_task task tr) = Some DuplicatePriorityKey"
    using insertHelper_step_treeInv [OF ti, of task]
    by (auto simp: insert_task_def split: prod.splits sum.splits)
  show "fst (rebuild ts tr) = None \<or> fst (rebuild ts tr) = Some DuplicatePriorityKey"
    unfolding rebuild_def by (rule rebuild_loop_result) (simp add: treeInv_def)
  show "fst (deleteTask i tr) = None \<or> fst (deleteTask i tr) = Some NotFound"
  proof (cases "idMap tr i")
    case None
    then show ?thesis by (simp add: deleteTask_def)
  next
    case (Some p)
    with e obtain t k where "(p, t, k) \<in> set (nodesOf (root tr))" by blast
    from nodeAt_Some [OF d this] have na: "nodeAt (root tr) p = Some (t, k)" .
    from deleteHelper_avl [OF a, of k "idMap tr"] obtain n' m' where
      "deleteHelper (root tr) k (idMap tr) = (Inr n', m')" by blast
    with Some na show ?thesis by (simp add: deleteTask_def)
  qed
  show "searchTask i tr = Inr None
      \<or> (\<exists>t. searchTask i tr = Inr (Some t) \<and> idT t = i \<and> t \<in> set (listTasks tr))"
  proof (cases "idMap tr i")
    case None
    then show ?thesis by (simp add: searchTask_def search_def)
  next
    case (Some p)
    with e obtain t k where in_nodes: "(p, t, k) \<in> set (nodesOf (root tr))" and it: "idT t = i"
      by blast
    from nodeAt_Some [OF d in_nodes] have na: "nodeAt (root tr) p = Some (t, k)" .
    have "t \<in> set (listTasks tr)"
      using in_nodes by (force simp: listTasks_tasksOf tasksOf_def)
    with Some na it show ?thesis by (simp add: searchTask_def search_def)
  qed
qed

section \<open>What a rebuild and an insertion leave in the index\<close>

lemma treeInv_keys:
  assumes "treeInv tr"
  shows "set (keysOf (root tr)) = priority ` set (listTasks tr)"
proof -
  from assms have "keysOf (root tr) = map priority (tasksOf (root tr))"
    unfolding treeInv_def by blast
  then show ?thesis by (simp add: listTasks_tasksOf)
qed

lemma mset_split_at_key:
  assumes "p \<notin> set (map (\<lambda>x. snd (snd x)) ns)"
  shows "mset (filter (\<lambda>x. snd (snd x) < (p::int)) ns @ y # filter (\<lambda>x. snd (snd x) > p) ns)
     = add_mset y (mset ns)"
proof -
  have "filter (\<lambda>x. snd (snd x) > p) ns = filter (\<lambda>x. \<not> snd (snd x) < p) ns"
  proof (rule filter_cong [OF refl])
    fix x assume "x \<in> set ns"
    with assms have "snd (snd x) \<noteq> p" by force
    then show "(p < snd (snd x)) = (\<not> snd (snd x) < p)" by arith
  qed
  then show ?thesis by (simp add: mset_filter_partition)
qed

lemma insert_step_contents:
  assumes "treeInv tr"
  shows "(priority task \<in> priority ` set (listTasks tr) \<longrightarrow>
            insertHelper (root tr) task (idMap tr, nextAddr tr)
              = (Inl DuplicatePriorityKey, (idMap tr, nextAddr tr)))
       \<and> (priority task \<notin> priority ` set (listTasks tr) \<longrightarrow>
            (\<exists>r. insertHelper (root tr) task (idMap tr, nextAddr tr)
                 = (Inr r, ((idMap tr)(idT task \<mapsto> nextAddr tr), Suc (nextAddr tr)))
               \<and> mset (tasksOf r) = add_mset task (mset (listTasks tr))))"
proof -
  from assms have a: "avl (root tr)" and s: "sorted_wrt (<) (keysOf (root tr))"
    unfolding treeInv_def by blast+
  note k = treeInv_keys [OF assms]
  note h = insertHelper_nodesOf [OF a s, of task "idMap tr" "nextAddr tr"]
  show ?thesis
  proof (intro conjI impI)
    assume "priority task \<in> priority ` set (listTasks tr)"
    with k h show "insertHelper (root tr) task (idMap tr, nextAddr tr)
              = (Inl DuplicatePriorityKey, (idMap tr, nextAddr tr))" by blast
  next
    assume n: "priority task \<notin> priority ` set (listTasks tr)"
    with k have n': "priority task \<notin> set (keysOf (root tr))" by blast
    with h obtain r where
      r: "insertHelper (root tr) task (idMap tr, nextAddr tr)
            = (Inr r, ((idMap tr)(idT task \<mapsto> nextAddr tr), Suc (nextAddr tr)))"
      and ns: "nodesOf r = filter (\<lambda>x. snd (snd x) < priority task) (nodesOf (root tr))
                    @ (nextAddr tr, task, priority task)
                    # filter (\<lambda>x. snd (snd x) > priority task) (nodesOf (root tr))"
      by blast
    from n' have "priority task \<notin> set (map (\<lambda>x. snd (snd x)) (nodesOf (root tr)))"
      by (simp add: keysOf_def)
    from mset_split_at_key [OF this, of "(nextAddr tr, task, priority task)"] ns
    have "mset (nodesOf r) = add_mset (nextAddr tr, task, priority task) (mset (nodesOf (root tr)))"
      by simp
    from arg_cong [OF this, of "image_mset (\<lambda>x. fst (snd x))"]
    have "mset (tasksOf r) = add_mset task (mset (listTasks tr))"
      by (simp add: tasksOf_def listTasks_tasksOf)
    with r show "\<exists>r. insertHelper (root tr) task (idMap tr, nextAddr tr)
                 = (Inr r, ((idMap tr)(idT task \<mapsto> nextAddr tr), Suc (nextAddr tr)))
               \<and> mset (tasksOf r) = add_mset task (mset (listTasks tr))" by blast
  qed
qed

lemma rebuild_loop_contents:
  assumes "treeInv tr"
  shows "\<exists>j \<le> length ts.
      fst (rebuild_loop ts tr) = (if j = length ts then None else Some DuplicatePriorityKey)
    \<and> (j < length ts \<longrightarrow> priority (ts ! j) \<in> priority ` (set (listTasks tr) \<union> set (take j ts)))
    \<and> distinct (map priority (listTasks tr @ take j ts))
    \<and> mset (listTasks (snd (rebuild_loop ts tr))) = mset (listTasks tr) + mset (take j ts)
    \<and> dom (idMap (snd (rebuild_loop ts tr))) = dom (idMap tr) \<union> idT ` set (take j ts)"
  using assms
proof (induction ts arbitrary: tr)
  case Nil
  from treeInv_listTasks [OF Nil.prems] have "distinct (map priority (listTasks tr))"
    by (simp add: strict_sorted_iff)
  then show ?case by simp
next
  case (Cons t ts)
  note c = insert_step_contents [OF Cons.prems, of t]
  from treeInv_listTasks [OF Cons.prems] have d: "distinct (map priority (listTasks tr))"
    by (simp add: strict_sorted_iff)
  show ?case
  proof (cases "priority t \<in> priority ` set (listTasks tr)")
    case True
    with c have "insertHelper (root tr) t (idMap tr, nextAddr tr)
              = (Inl DuplicatePriorityKey, (idMap tr, nextAddr tr))" by blast
    then have "rebuild_loop (t # ts) tr = (Some DuplicatePriorityKey, tr)" by simp
    with True d show ?thesis by (intro exI [of _ 0]) simp
  next
    case False
    with c obtain r where
      r: "insertHelper (root tr) t (idMap tr, nextAddr tr)
            = (Inr r, ((idMap tr)(idT t \<mapsto> nextAddr tr), Suc (nextAddr tr)))"
      and m: "mset (tasksOf r) = add_mset t (mset (listTasks tr))" by blast
    define tr1 where "tr1 = \<lparr>root = r, idMap = (idMap tr)(idT t \<mapsto> nextAddr tr),
      nextAddr = Suc (nextAddr tr)\<rparr>"
    from r have l: "rebuild_loop (t # ts) tr = rebuild_loop ts tr1"
      by (simp add: tr1_def del: fun_upd_apply)
    from insertHelper_step_treeInv [OF Cons.prems, of t] r have i1: "treeInv tr1"
      by (simp add: tr1_def del: fun_upd_apply)
    from m have m1: "mset (listTasks tr1) = add_mset t (mset (listTasks tr))"
      by (simp add: tr1_def listTasks_tasksOf)
    have d1: "dom (idMap tr1) = insert (idT t) (dom (idMap tr))" by (simp add: tr1_def)
    from Cons.IH [OF i1] obtain j where j: "j \<le> length ts"
      and f: "fst (rebuild_loop ts tr1) = (if j = length ts then None else Some DuplicatePriorityKey)"
      and p: "j < length ts \<longrightarrow> priority (ts ! j) \<in> priority ` (set (listTasks tr1) \<union> set (take j ts))"
      and di: "distinct (map priority (listTasks tr1 @ take j ts))"
      and ms: "mset (listTasks (snd (rebuild_loop ts tr1))) = mset (listTasks tr1) + mset (take j ts)"
      and dm: "dom (idMap (snd (rebuild_loop ts tr1))) = dom (idMap tr1) \<union> idT ` set (take j ts)"
      by blast
    have e: "mset (listTasks tr1 @ take j ts) = mset (listTasks tr @ take (Suc j) (t # ts))"
      using m1 by simp
    from arg_cong [OF e, of set_mset]
    have s: "set (listTasks tr1) \<union> set (take j ts) = set (listTasks tr) \<union> set (take (Suc j) (t # ts))"
      by simp
    from arg_cong [OF e, of "image_mset priority"]
    have "mset (map priority (listTasks tr1 @ take j ts))
        = mset (map priority (listTasks tr @ take (Suc j) (t # ts)))" by simp
    from mset_eq_imp_distinct_iff [OF this] di
    have di': "distinct (map priority (listTasks tr @ take (Suc j) (t # ts)))" by blast
    show ?thesis
    proof (intro exI [of _ "Suc j"] conjI)
      from j show "Suc j \<le> length (t # ts)" by simp
      from f l show "fst (rebuild_loop (t # ts) tr)
          = (if Suc j = length (t # ts) then None else Some DuplicatePriorityKey)" by simp
      from p s show "Suc j < length (t # ts) \<longrightarrow>
          priority ((t # ts) ! Suc j) \<in> priority ` (set (listTasks tr) \<union> set (take (Suc j) (t # ts)))"
        by simp
      from di' show "distinct (map priority (listTasks tr @ take (Suc j) (t # ts)))" .
      from ms m1 l show "mset (listTasks (snd (rebuild_loop (t # ts) tr)))
          = mset (listTasks tr) + mset (take (Suc j) (t # ts))" by simp
      from dm d1 l show "dom (idMap (snd (rebuild_loop (t # ts) tr)))
          = dom (idMap tr) \<union> idT ` set (take (Suc j) (t # ts))" by simp
    qed
  qed
qed

lemma strictly_sorted_unique:
  fixes f :: "'a \<Rightarrow> int"
  assumes "mset ys = mset xs" "sorted_wrt (<) (map f ys)"
  shows "ys = sort_key f xs"
proof -
  from assms(2) have sy: "sorted (map f ys)" and dy: "distinct (map f ys)"
    by (simp_all add: strict_sorted_iff)
  from assms(1) have se: "set ys = set xs" by (metis set_mset_mset)
  have "mset (map f (sort_key f xs)) = mset (map f ys)" using assms(1) by simp
  from mset_eq_imp_distinct_iff [OF this] dy have dx: "distinct (map f (sort_key f xs))" by blast
  have "set (map f (sort_key f xs)) = set (map f ys)" using se by simp
  with sy dy dx have "map f (sort_key f xs) = map f ys"
    by (intro sorted_distinct_set_unique) simp_all
  moreover from dy have "inj_on f (set ys)" by (simp add: distinct_map)
  with se have "inj_on f (set (sort_key f xs) \<union> set ys)" by simp
  ultimately show ?thesis by (simp add: inj_on_map_eq_map)
qed

lemma rebuild_contents:
  "\<exists>j \<le> length ts.
      fst (rebuild ts tr) = (if j = length ts then None else Some DuplicatePriorityKey)
    \<and> (j < length ts \<longrightarrow> priority (ts ! j) \<in> priority ` set (take j ts))
    \<and> distinct (map priority (take j ts))
    \<and> listTasks (snd (rebuild ts tr)) = sort_key priority (take j ts)
    \<and> dom (idMap (snd (rebuild ts tr))) = idT ` set (take j ts)"
proof -
  define tr0 where "tr0 = tr\<lparr>root := Null, idMap := Map.empty\<rparr>"
  have i: "treeInv tr0" by (simp add: tr0_def treeInv_def)
  have l: "listTasks tr0 = []" by (simp add: tr0_def listTasks_def)
  have d: "dom (idMap tr0) = {}" by (simp add: tr0_def)
  have r: "rebuild ts tr = rebuild_loop ts tr0" by (simp add: rebuild_def tr0_def)
  from rebuild_loop_contents [OF i, of ts] obtain j where j: "j \<le> length ts"
    and f: "fst (rebuild_loop ts tr0) = (if j = length ts then None else Some DuplicatePriorityKey)"
    and p: "j < length ts \<longrightarrow> priority (ts ! j) \<in> priority ` (set (listTasks tr0) \<union> set (take j ts))"
    and di: "distinct (map priority (listTasks tr0 @ take j ts))"
    and ms: "mset (listTasks (snd (rebuild_loop ts tr0))) = mset (listTasks tr0) + mset (take j ts)"
    and dm: "dom (idMap (snd (rebuild_loop ts tr0))) = dom (idMap tr0) \<union> idT ` set (take j ts)"
    by blast
  from rebuild_treeInv [of ts tr] have "treeInv (snd (rebuild_loop ts tr0))" by (simp add: r)
  from treeInv_listTasks [OF this]
  have "sorted_wrt (<) (map priority (listTasks (snd (rebuild_loop ts tr0))))" .
  from strictly_sorted_unique [OF _ this, of "take j ts"] ms l
  have e: "listTasks (snd (rebuild_loop ts tr0)) = sort_key priority (take j ts)" by simp
  show ?thesis
  proof (intro exI [of _ j] conjI)
    from j show "j \<le> length ts" .
    from f r show "fst (rebuild ts tr) = (if j = length ts then None else Some DuplicatePriorityKey)"
      by simp
    from p l show "j < length ts \<longrightarrow> priority (ts ! j) \<in> priority ` set (take j ts)" by simp
    from di l show "distinct (map priority (take j ts))" by simp
    from e r show "listTasks (snd (rebuild ts tr)) = sort_key priority (take j ts)" by simp
    from dm d r show "dom (idMap (snd (rebuild ts tr))) = idT ` set (take j ts)" by simp
  qed
qed

lemma rebuild_fails_iff:
  "fst (rebuild ts tr) = Some DuplicatePriorityKey \<longleftrightarrow> \<not> distinct (map priority ts)"
proof -
  from rebuild_contents [of ts tr] obtain j where j: "j \<le> length ts"
    and f: "fst (rebuild ts tr) = (if j = length ts then None else Some DuplicatePriorityKey)"
    and p: "j < length ts \<longrightarrow> priority (ts ! j) \<in> priority ` set (take j ts)"
    and di: "distinct (map priority (take j ts))" by blast
  show ?thesis
  proof (cases "j = length ts")
    case True
    with f di show ?thesis by simp
  next
    case False
    with j have lt: "j < length ts" by simp
    with p have "priority (ts ! j) \<in> priority ` set (take j ts)" by blast
    then have "map priority ts ! j \<in> set (take j (map priority ts))"
      using lt by (simp add: take_map)
    then have "\<not> distinct (take (Suc j) (map priority ts))"
      using lt by (simp add: take_Suc_conv_app_nth)
    then have "\<not> distinct (map priority ts)" using distinct_take by blast
    with f False show ?thesis by simp
  qed
qed

lemma insert_step_mapped:
  assumes "treeInv tr" "\<forall>t \<in> set (listTasks tr). idMap tr (idT t) \<noteq> None"
    "insertHelper (root tr) task (idMap tr, nextAddr tr) = (Inr r, (m, n))"
  shows "\<forall>t \<in> set (listTasks \<lparr>root = r, idMap = m, nextAddr = n\<rparr>). m (idT t) \<noteq> None"
proof -
  note c = insert_step_contents [OF assms(1), of task]
  from c assms(3) have "priority task \<notin> priority ` set (listTasks tr)" by auto
  with c assms(3) have m: "m = (idMap tr)(idT task \<mapsto> nextAddr tr)"
    and ms: "mset (tasksOf r) = add_mset task (mset (listTasks tr))" by auto
  from arg_cong [OF ms, of set_mset] have "set (tasksOf r) = insert task (set (listTasks tr))"
    by simp
  with assms(2) m show ?thesis by (auto simp: listTasks_tasksOf)
qed

lemma insert_task_mapped:
  assumes "treeInv tr" "\<forall>t \<in> set (listTasks tr). idMap tr (idT t) \<noteq> None"
  shows "\<forall>t \<in> set (listTasks (snd (insert_task task tr))).
           idMap (snd (insert_task task tr)) (idT t) \<noteq> None"
proof (cases "idMap tr (idT task) \<noteq> None")
  case True
  with assms(2) show ?thesis by (simp add: insert_task_def)
next
  case False
  obtain res m n where ih: "insertHelper (root tr) task (idMap tr, nextAddr tr) = (res, (m, n))"
    by (metis surj_pair)
  show ?thesis
  proof (cases res)
    case (Inl e)
    from insertHelper_step_treeInv [OF assms(1), of task] ih Inl
    have "m = idMap tr" by simp
    with False ih Inl assms(2) show ?thesis
      by (simp add: insert_task_def listTasks_def)
  next
    case (Inr r)
    from insert_step_mapped [OF assms] ih Inr
    have "\<forall>t \<in> set (listTasks \<lparr>root = r, idMap = m, nextAddr = n\<rparr>). m (idT t) \<noteq> None"
      by simp
    with False ih Inr show ?thesis by (simp add: insert_task_def)
  qed
qed

lemma rebuild_loop_mapped:
  assumes "treeInv tr" "\<forall>t \<in> set (listTasks tr). idMap tr (idT t) \<noteq> None"
  shows "\<forall>t \<in> set (listTasks (snd (rebuild_loop ts tr))).
           idMap (snd (rebuild_loop ts tr)) (idT t) \<noteq> None"
  using assms
proof (induction ts arbitrary: tr)
  case Nil
  then show ?case by simp
next
  case (Cons t ts)
  obtain res m n where ih: "insertHelper (root tr) t (idMap tr, nextAddr tr) = (res, (m, n))"
    by (metis surj_pair)
  show ?case
  proof (cases res)
    case (Inl e)
    from insertHelper_step_treeInv [OF Cons.prems(1), of t] ih Inl
    have "m = idMap tr" by simp
    with ih Inl Cons.prems(2) show ?thesis by (simp add: listTasks_def)
  next
    case (Inr r)
    from insertHelper_step_treeInv [OF Cons.prems(1), of t] ih Inr
    have i1: "treeInv \<lparr>root = r, idMap = m, nextAddr = n\<rparr>" by simp
    from insert_step_mapped [OF Cons.prems] ih Inr
    have "\<forall>t \<in> set (listTasks \<lparr>root = r, idMap = m, nextAddr = n\<rparr>).
        idMap \<lparr>root = r, idMap = m, nextAddr = n\<rparr> (idT t) \<noteq> None"
      by simp
    from Cons.IH [OF i1 this] ih Inr show ?thesis by simp
  qed
qed

lemma noDeletion_mapped:
  "noDeletion tr \<Longrightarrow> treeInv tr \<and> (\<forall>t \<in> set (listTasks tr). idMap tr (idT t) \<noteq> None)"
proof (induction rule: noDeletion.induct)
  case created
  show ?case by (simp add: treeInv_def emptyTree_def listTasks_def)
next
  case (rebuilt tasks tr)
  have "treeInv (tr\<lparr>root := Null, idMap := Map.empty\<rparr>)" by (simp add: treeInv_def)
  moreover have "\<forall>t \<in> set (listTasks (tr\<lparr>root := Null, idMap := Map.empty\<rparr>)).
      idMap (tr\<lparr>root := Null, idMap := Map.empty\<rparr>) (idT t) \<noteq> None"
    by (simp add: listTasks_def)
  ultimately have "\<forall>t \<in> set (listTasks (snd (rebuild tasks tr))).
      idMap (snd (rebuild tasks tr)) (idT t) \<noteq> None"
    unfolding rebuild_def by (rule rebuild_loop_mapped)
  with rebuild_treeInv [of tasks tr] show ?case by blast
next
  case (inserted tr task)
  then show ?case by (simp add: insert_task_treeInv insert_task_mapped)
qed

lemma noDeletion_insertChoice:
  "noDeletion tr \<Longrightarrow> noDeletion (snd (insertChoice srt i desc cat years months days hoursInput tr))"
  by (simp add: insertChoice_def noDeletion.rebuilt)

lemma noDeletion_updateChoice:
  "noDeletion tr \<Longrightarrow> noDeletion (snd (updateChoice srt i completeAnswer tr))"
  by (simp add: updateChoice_def Let_def noDeletion.rebuilt split: prod.splits)

lemma reachable_unlisted:
  assumes "reachable tr" "i \<notin> idT ` set (listTasks tr)"
  shows "idMap tr i = None"
proof (rule ccontr)
  assume "idMap tr i \<noteq> None"
  then obtain p where p: "idMap tr i = Some p" by blast
  from reachable_mapInv [OF assms(1)] p obtain t k where
    "(p, t, k) \<in> set (nodesOf (root tr))" "idT t = i" unfolding mapInv_def by blast
  then have "t \<in> set (listTasks tr)" "idT t = i"
    by (force simp: listTasks_tasksOf tasksOf_def)+
  with assms(2) show False by blast
qed

section \<open>The conversion of a deadline to hours\<close>

lemma sint_scast_32_64: "sint (scast (w :: 32 word) :: 64 word) = sint w"
  by (simp add: sint_up_scast is_up)

lemma sint_32_bounds: "- (2 ^ 31) \<le> sint (w :: 32 word)" "sint (w :: 32 word) < 2 ^ 31"
  using sint_ge [of w] sint_lt [of w] by simp_all

text \<open>No \<open>int\<close> input makes the 64-bit sum overflow.\<close>

lemma computeRemainingHours_sint:
  "sint (computeRemainingHours years months days hoursInput) =
     sint years * 365 * 24 + sint months * 30 * 24 + sint days * 24
       + sint (hoursRead years months days hoursInput)"
proof -
  define v where "v = sint years * 365 * 24 + sint months * 30 * 24 + sint days * 24
       + sint (hoursRead years months days hoursInput)"
  have eq: "computeRemainingHours years months days hoursInput = word_of_int v"
    unfolding computeRemainingHours_def Let_def v_def
    by (simp add: word_of_int_hom_syms flip: sint_scast_32_64)
  have "- (2 ^ 63) \<le> v" "v < 2 ^ 63"
    using sint_32_bounds [of years] sint_32_bounds [of months] sint_32_bounds [of days]
      sint_32_bounds [of "hoursRead years months days hoursInput"]
    by (simp_all add: v_def)
  then have "sint (word_of_int v :: 64 word) = v"
    by (simp add: sint_sbintrunc' signed_take_bit_int_eq_self)
  then show ?thesis
    using eq by (simp add: v_def)
qed

text \<open>
  Claim C9. For non-negative \<open>int\<close> inputs years, months, days and hours, the remaining
  hours computed at lines 102 to 109 are exactly
  \<open>years * 365 * 24 + months * 30 * 24 + days * 24 + h\<close>, where \<open>h\<close> is the hours
  entered when years, months and days are all zero, and 0 otherwise.
\<close>

theorem C9_computeRemainingHours_linear:
  assumes "0 \<le> sint years" "0 \<le> sint months" "0 \<le> sint days" "0 \<le> sint hours"
  shows "sint (computeRemainingHours years months days hours) =
     sint years * 365 * 24 + sint months * 30 * 24 + sint days * 24
       + (if years = 0 \<and> months = 0 \<and> days = 0 then sint hours else 0)"
  by (simp add: computeRemainingHours_sint hoursRead_def)

theorem C9_witness:
  "0 \<le> sint (1 :: 32 word) \<and> 0 \<le> sint (2 :: 32 word) \<and> 0 \<le> sint (3 :: 32 word)
   \<and> 0 \<le> sint (4 :: 32 word)
   \<and> sint (computeRemainingHours 1 2 3 4) = 10272
   \<and> sint (computeRemainingHours 0 0 0 4) = 4"
  using C9_computeRemainingHours_linear [of 1 2 3 4]
    C9_computeRemainingHours_linear [of 0 0 0 4]
  by simp

section \<open>Density of the priorities\<close>

text \<open>
  What the three branches of the menu loop do to the priorities, with any sort that meets
  the contract of \<open>std::sort\<close>: a status update of a task that is present commits
  priorities that are exactly \<open>1, \<dots>, N\<close>; an insertion into a state whose priorities
  are \<open>1, \<dots>, N\<close> commits \<open>1, \<dots>, N + 1\<close>; a deletion removes the task with the
  deleted key and leaves every other task as it was, priority included.
\<close>

lemma density_by_operation:
  assumes "std_sort_ok srt"
  shows "(search i tr \<noteq> None \<and> i \<in> idT ` set (listTasks tr) \<longrightarrow>
            fst (updateChoice srt i completeAnswer tr) = None
            \<and> map priority (listTasks (snd (updateChoice srt i completeAnswer tr)))
                = [1..int (length (listTasks tr))])
     \<and> (search i tr = None \<and> map priority (listTasks tr) = [1..int (length (listTasks tr))] \<longrightarrow>
            fst (insertChoice srt i desc cat years months days hoursInput tr) = None
            \<and> map priority
                  (listTasks (snd (insertChoice srt i desc cat years months days hoursInput tr)))
                = [1..int (length (listTasks tr)) + 1])
     \<and> (treeInv tr \<and> idMap tr i = Some p \<and> nodeAt (root tr) p = Some (t, key) \<longrightarrow>
            fst (deleteChoice i tr) = None
            \<and> listTasks (snd (deleteChoice i tr))
                = filter (\<lambda>t. priority t \<noteq> key) (listTasks tr))"
proof (intro conjI impI)
  assume a: "search i tr \<noteq> None \<and> i \<in> idT ` set (listTasks tr)"
  from updateChoice_ok [OF assms, of i tr completeAnswer] a obtain tr' where
    u: "updateChoice srt i completeAnswer tr = (None, tr')"
    "listTasks tr' = renumberOnStatusChange srt
          (snd (setStatus i (if completeAnswer = CHR ''y'' then ''complete'' else ''incomplete'')
             (listTasks tr)))" by blast
  from u(1) show "fst (updateChoice srt i completeAnswer tr) = None" by simp
  from u show "map priority (listTasks (snd (updateChoice srt i completeAnswer tr)))
                = [1..int (length (listTasks tr))]"
    by (simp add: renumberOnStatusChange_props(1) [OF assms] setStatus_length)
next
  assume a: "search i tr = None \<and> map priority (listTasks tr) = [1..int (length (listTasks tr))]"
  then have d: "map priority (listTasks tr) = [1..int (length (listTasks tr))]" by blast
  have s: "sorted_wrt (<) (map priority (listTasks tr))"
    by (subst d) (simp add: strict_sorted_iff)
  have p: "\<forall>t \<in> set (listTasks tr). 1 \<le> priority t"
  proof
    fix t assume "t \<in> set (listTasks tr)"
    then have "priority t \<in> set (map priority (listTasks tr))" by simp
    then show "1 \<le> priority t" by (subst (asm) d) simp
  qed
  from a have sn: "search i tr = None" by blast
  from insertChoice_ok [OF assms sn s p, of desc cat years months days hoursInput]
  obtain tr' where
    u: "insertChoice srt i desc cat years months days hoursInput tr = (None, tr')"
    "listTasks tr' = insertList srt i desc cat years months days hoursInput (listTasks tr)"
    by blast
  from u(1) show "fst (insertChoice srt i desc cat years months days hoursInput tr) = None"
    by simp
  from u show "map priority
                  (listTasks (snd (insertChoice srt i desc cat years months days hoursInput tr)))
                = [1..int (length (listTasks tr)) + 1]"
    by (simp add: insertList_dense [OF assms d])
next
  assume a: "treeInv tr \<and> idMap tr i = Some p \<and> nodeAt (root tr) p = Some (t, key)"
  then have "\<exists>tr'. deleteChoice i tr = (None, tr')
     \<and> listTasks tr' = filter (\<lambda>t. priority t \<noteq> key) (listTasks tr) \<and> treeInv tr'"
    by (intro deleteChoice_ok) blast+
  then obtain tr' where u: "deleteChoice i tr = (None, tr')"
    "listTasks tr' = filter (\<lambda>t. priority t \<noteq> key) (listTasks tr)" by blast
  from u(1) show "fst (deleteChoice i tr) = None" by simp
  from u show "listTasks (snd (deleteChoice i tr))
                = filter (\<lambda>t. priority t \<noteq> key) (listTasks tr)" by simp
qed

lemma density_by_operation_scenarios:
  "std_sort_ok sort_key
   \<and> search ''t10'' scenarioA \<noteq> None \<and> ''t10'' \<in> idT ` set (listTasks scenarioA)
   \<and> map priority (listTasks (snd (updateChoice sort_key ''t10'' CHR ''y'' scenarioA)))
       = [1..int (length (listTasks scenarioA))]
   \<and> search ''t7'' scenarioA = None
   \<and> map priority (listTasks scenarioA) = [1..int (length (listTasks scenarioA))]
   \<and> map priority
         (listTasks (snd (insertChoice sort_key ''t7'' ''fourth'' ''work'' 0 0 0 7 scenarioA)))
       = [1..int (length (listTasks scenarioA)) + 1]
   \<and> treeInv scenarioB \<and> idMap scenarioB ''t20'' = Some 7
   \<and> nodeAt (root scenarioB) 7
       = Some (\<lparr>idT = ''t20'', description = ''third'',
           deadlineDetails = ''0 year(s), 0 month(s), 0 day(s), 20 hour(s)'', priority = 2,
           category = ''work'', status = ''incomplete'', remainingHours = 20\<rparr>, 2)
   \<and> listTasks (snd (deleteChoice ''t20'' scenarioB))
       = filter (\<lambda>t. priority t \<noteq> 2) (listTasks scenarioB)"
proof -
  let ?t = "\<lparr>idT = ''t20'', description = ''third'',
           deadlineDetails = ''0 year(s), 0 month(s), 0 day(s), 20 hour(s)'', priority = 2,
           category = ''work'', status = ''incomplete'', remainingHours = 20\<rparr>"
  have h1: "search ''t10'' scenarioA \<noteq> None" by code_simp
  have h2: "''t10'' \<in> idT ` set (listTasks scenarioA)" by code_simp
  have h3: "search ''t7'' scenarioA = None" by code_simp
  have h4: "map priority (listTasks scenarioA) = [1..int (length (listTasks scenarioA))]"
    by code_simp
  have h5: "treeInv scenarioB" by code_simp
  have h6: "idMap scenarioB ''t20'' = Some 7" by code_simp
  have h7: "nodeAt (root scenarioB) 7 = Some (?t, 2)" by code_simp
  from density_by_operation [OF std_sort_ok_sort_key,
      of "''t10''" scenarioA "CHR ''y''" "''fourth''" "''work''" 0 0 0 7 7 ?t 2] h1 h2
  have a: "map priority (listTasks (snd (updateChoice sort_key ''t10'' CHR ''y'' scenarioA)))
       = [1..int (length (listTasks scenarioA))]" by blast
  from density_by_operation [OF std_sort_ok_sort_key,
      of "''t7''" scenarioA "CHR ''y''" "''fourth''" "''work''" 0 0 0 7 7 ?t 2] h3 h4
  have b: "map priority
         (listTasks (snd (insertChoice sort_key ''t7'' ''fourth'' ''work'' 0 0 0 7 scenarioA)))
       = [1..int (length (listTasks scenarioA)) + 1]" by blast
  from density_by_operation [OF std_sort_ok_sort_key,
      of "''t20''" scenarioB "CHR ''y''" "''fourth''" "''work''" 0 0 0 7 7 ?t 2] h5 h6 h7
  have c: "listTasks (snd (deleteChoice ''t20'' scenarioB))
       = filter (\<lambda>t. priority t \<noteq> 2) (listTasks scenarioB)" by blast
  from std_sort_ok_sort_key h1 h2 a h3 h4 b h5 h6 h7 c show ?thesis by blast
qed

text \<open>
  Claim C1 says that the priorities are \<open>1, \<dots>, N\<close> in every reachable state, also
  after a deletion. Evaluated on Scenario B's state: deleting the 20-hour task, which has
  priority 2, returns normally and leaves the 5-hour task with priority 1 and the
  completed 10-hour task with priority 3. The branch of the deletion (lines 222 to 235)
  is the only one that commits without renumbering: a status update that changes nothing,
  answered \<open>n\<close> for the incomplete 5-hour task, goes through lines 210 to 213 and gives
  that state the priorities 1 and 2.
\<close>

theorem C1_deletion_leaves_gap:
  "map (\<lambda>t. (idT t, priority t)) (listTasks scenarioB)
     = [(''t5'', 1), (''t20'', 2), (''t10'', 3)]
   \<and> fst (deleteChoice ''t20'' scenarioB) = None
   \<and> map (\<lambda>t. (idT t, priority t)) (listTasks (snd (deleteChoice ''t20'' scenarioB)))
     = [(''t5'', 1), (''t10'', 3)]
   \<and> map (\<lambda>t. (idT t, priority t))
       (listTasks (snd (updateChoice sort_key ''t5'' CHR ''n''
          (snd (deleteChoice ''t20'' scenarioB)))))
     = [(''t5'', 1), (''t10'', 2)]"
  by code_simp

section \<open>The identifier map after a deletion\<close>

text \<open>
  Claim C2 says that after \<open>delete(id)\<close> every other live id is still found. Evaluated on
  Scenario B's state, where the 20-hour task is the root and has two children: deleting it
  returns normally and the listing keeps the tasks \<open>t5\<close> and \<open>t10\<close>, but \<open>t10\<close>, the
  in-order successor whose payload was moved into the root, is no longer in \<open>idMap\<close>:
  \<open>search\<close> returns \<open>nullptr\<close> for it and a later \<open>deleteTask\<close> of it throws
  "Task ID not found.".
\<close>

theorem C2_successor_unmapped:
  "map idT (listTasks scenarioB) = [''t5'', ''t20'', ''t10'']
   \<and> searchTask ''t10'' scenarioB
       = Inr (Some \<lparr>idT = ''t10'', description = ''first'',
           deadlineDetails = ''0 year(s), 0 month(s), 0 day(s), 10 hour(s)'', priority = 3,
           category = ''work'', status = ''complete'', remainingHours = 10\<rparr>)
   \<and> fst (deleteTask ''t20'' scenarioB) = None
   \<and> map idT (listTasks (snd (deleteTask ''t20'' scenarioB))) = [''t5'', ''t10'']
   \<and> search ''t10'' (snd (deleteTask ''t20'' scenarioB)) = None
   \<and> searchTask ''t10'' (snd (deleteTask ''t20'' scenarioB)) = Inr None
   \<and> fst (deleteTask ''t10'' (snd (deleteTask ''t20'' scenarioB))) = Some NotFound"
  by code_simp

section \<open>Insertion next to a completed task\<close>

text \<open>
  Claim C3 says that after an insertion every incomplete task precedes every complete
  one. Evaluated on Scenario B's state, whose last task is complete with 10 frozen
  remaining hours: a new task with 30 remaining hours is ranked against those 10 hours and
  gets the priority after the completed task.
\<close>

theorem C3_insert_after_complete:
  "map (\<lambda>t. (idT t, priority t, status t, remainingHours t)) (listTasks scenarioB)
     = [(''t5'', 1, ''incomplete'', 5), (''t20'', 2, ''incomplete'', 20),
        (''t10'', 3, ''complete'', 10)]
   \<and> map (\<lambda>t. (idT t, priority t, status t, remainingHours t))
       (listTasks (snd (insertChoice sort_key ''t30'' ''fourth'' ''work'' 0 0 0 30 scenarioB)))
     = [(''t5'', 1, ''incomplete'', 5), (''t20'', 2, ''incomplete'', 20),
        (''t10'', 3, ''complete'', 10), (''t30'', 4, ''incomplete'', 30)]"
  by code_simp

section \<open>Renumbering after a status change\<close>

text \<open>
  Claim C4, as the code has it. With any sort that meets the contract of \<open>std::sort\<close>,
  the renumbered list has the priorities \<open>1, \<dots>, N\<close> in list order, its incomplete
  tasks come first and are ascending by remaining hours, and it holds the same tasks as
  before up to their priorities. Nothing is said about the order of incomplete tasks with
  equal remaining hours.
\<close>

theorem C4_renumber_sorted_by_hours:
  assumes "std_sort_ok srt"
  shows "map priority (renumberOnStatusChange srt tasks) = [1..int (length tasks)]
     \<and> policyOrdered (renumberOnStatusChange srt tasks)
     \<and> mset (map forget (renumberOnStatusChange srt tasks)) = mset (map forget tasks)"
  using renumberOnStatusChange_props [OF assms, of tasks] by blast

theorem C4_witness:
  "std_sort_ok sort_key
   \<and> map priority (renumberOnStatusChange sort_key (listTasks scenarioB))
       = [1..int (length (listTasks scenarioB))]
   \<and> policyOrdered (renumberOnStatusChange sort_key (listTasks scenarioB))
   \<and> mset (map forget (renumberOnStatusChange sort_key (listTasks scenarioB)))
       = mset (map forget (listTasks scenarioB))"
  using C4_renumber_sorted_by_hours [OF std_sort_ok_sort_key, of "listTasks scenarioB"]
    std_sort_ok_sort_key
  by blast

text \<open>
  Up to 16 elements \<open>std::sort\<close> of libstdc++ is one insertion sort and keeps the order
  of ties: three tasks with equal remaining hours stay as they were.
\<close>

lemma std_sort_three_tied:
  "map_option (map idT)
     (std_sort (\<lambda>a b. remainingHours a < remainingHours b)
        [scenarioB5\<lparr>idT := ''a''\<rparr>, scenarioB5\<lparr>idT := ''b''\<rparr>, scenarioB5\<lparr>idT := ''c''\<rparr>])
     = Some [''a'', ''b'', ''c'']"
  by code_simp

text \<open>
  The claim as stated asks for a stable sort, and line 199 calls \<open>std::sort\<close>. With 17
  tasks of 5 remaining hours each, listed \<open>t01\<close> to \<open>t17\<close>, and an 18th task with 9:
  marking the 18th complete sorts the 17 by remaining hours. \<open>std::sort\<close> of libstdc++
  takes the 9th of them as the pivot, swaps it to the front and swaps the others pairwise
  around it, so the list comes back with \<open>t09\<close> first and \<open>t01\<close> tenth, and the tasks
  are renumbered in that order.
\<close>

theorem C4_counterexample:
  "map (\<lambda>t. (idT t, priority t, status t, remainingHours t)) (listTasks tiedState)
     = [(''t01'', 1, ''incomplete'', 5), (''t02'', 2, ''incomplete'', 5),
        (''t03'', 3, ''incomplete'', 5), (''t04'', 4, ''incomplete'', 5),
        (''t05'', 5, ''incomplete'', 5), (''t06'', 6, ''incomplete'', 5),
        (''t07'', 7, ''incomplete'', 5), (''t08'', 8, ''incomplete'', 5),
        (''t09'', 9, ''incomplete'', 5), (''t10'', 10, ''incomplete'', 5),
        (''t11'', 11, ''incomplete'', 5), (''t12'', 12, ''incomplete'', 5),
        (''t13'', 13, ''incomplete'', 5), (''t14'', 14, ''incomplete'', 5),
        (''t15'', 15, ''incomplete'', 5), (''t16'', 16, ''incomplete'', 5),
        (''t17'', 17, ''incomplete'', 5), (''t18'', 18, ''incomplete'', 9)]
   \<and> map_option (map idT)
       (std_sort (\<lambda>a b. remainingHours a < remainingHours b) (take 17 (listTasks tiedState)))
     = Some [''t09'', ''t17'', ''t16'', ''t15'', ''t14'', ''t13'', ''t12'', ''t11'', ''t10'',
           ''t01'', ''t08'', ''t07'', ''t06'', ''t05'', ''t04'', ''t03'', ''t02'']
   \<and> fst (updateChoice sort_libstdcxx ''t18'' CHR ''y'' tiedState) = None
   \<and> map (\<lambda>t. (idT t, priority t, status t, remainingHours t))
       (listTasks (snd (updateChoice sort_libstdcxx ''t18'' CHR ''y'' tiedState)))
     = [(''t09'', 1, ''incomplete'', 5), (''t17'', 2, ''incomplete'', 5),
        (''t16'', 3, ''incomplete'', 5), (''t15'', 4, ''incomplete'', 5),
        (''t14'', 5, ''incomplete'', 5), (''t13'', 6, ''incomplete'', 5),
        (''t12'', 7, ''incomplete'', 5), (''t11'', 8, ''incomplete'', 5),
        (''t10'', 9, ''incomplete'', 5), (''t01'', 10, ''incomplete'', 5),
        (''t08'', 11, ''incomplete'', 5), (''t07'', 12, ''incomplete'', 5),
        (''t06'', 13, ''incomplete'', 5), (''t05'', 14, ''incomplete'', 5),
        (''t04'', 15, ''incomplete'', 5), (''t03'', 16, ''incomplete'', 5),
        (''t02'', 17, ''incomplete'', 5), (''t18'', 18, ''complete'', 9)]"
  by code_simp

section \<open>Status changes\<close>

text \<open>
  Claim C5, as the code has it. The status update gives the first listed task with the
  entered id the status "complete" when the answer is \<open>y\<close> and "incomplete" when it is
  not, whatever its status was, and commits the other tasks with all their fields but the
  priority unchanged; for an id that is not found nothing changes. An insertion commits the
  old tasks, unchanged up to priority, and the new one. A deletion leaves the remaining
  tasks unchanged.
\<close>

theorem C5_status_by_operation:
  assumes "std_sort_ok srt"
  shows "(search i tr \<noteq> None \<and> listTasks tr = pre @ t # post \<and> idT t = i
            \<and> i \<notin> idT ` set pre \<longrightarrow>
            fst (updateChoice srt i completeAnswer tr) = None
            \<and> mset (map forget (listTasks (snd (updateChoice srt i completeAnswer tr))))
                = mset (map forget (pre
                    @ t\<lparr>status := (if completeAnswer = CHR ''y'' then ''complete''
                                    else ''incomplete'')\<rparr> # post)))
     \<and> (search i tr = None \<longrightarrow> updateChoice srt i completeAnswer tr = (None, tr))
     \<and> (search i tr = None \<and> sorted_wrt (<) (map priority (listTasks tr))
            \<and> (\<forall>u \<in> set (listTasks tr). 1 \<le> priority u) \<longrightarrow>
            fst (insertChoice srt i desc cat years months days hoursInput tr) = None
            \<and> mset (map forget
                  (listTasks (snd (insertChoice srt i desc cat years months days hoursInput tr))))
                = mset (map forget (listTasks tr))
                  + {#forget (newTask i desc cat years months days hoursInput (listTasks tr))#})
     \<and> (search i tr \<noteq> None \<longrightarrow>
            insertChoice srt i desc cat years months days hoursInput tr = (None, tr))
     \<and> (treeInv tr \<and> idMap tr i = Some p \<and> nodeAt (root tr) p = Some (v, key) \<longrightarrow>
            listTasks (snd (deleteChoice i tr))
              = filter (\<lambda>u. priority u \<noteq> key) (listTasks tr))
     \<and> (idMap tr i = None \<longrightarrow> deleteChoice i tr = (None, tr))"
proof (intro conjI impI)
  assume a: "search i tr \<noteq> None \<and> listTasks tr = pre @ t # post \<and> idT t = i
            \<and> i \<notin> idT ` set pre"
  then have sn: "search i tr \<noteq> None" and lt: "listTasks tr = pre @ t # post"
    and it: "idT t = i" and ip: "i \<notin> idT ` set pre" by blast+
  have mem: "i \<in> idT ` set (listTasks tr)" using lt it by auto
  from updateChoice_ok [OF assms sn mem, of completeAnswer] obtain tr' where
    u: "updateChoice srt i completeAnswer tr = (None, tr')"
    "listTasks tr' = renumberOnStatusChange srt
          (snd (setStatus i (if completeAnswer = CHR ''y'' then ''complete'' else ''incomplete'')
             (listTasks tr)))" by blast
  from u(1) show "fst (updateChoice srt i completeAnswer tr) = None" by simp
  from u show "mset (map forget (listTasks (snd (updateChoice srt i completeAnswer tr))))
                = mset (map forget (pre
                    @ t\<lparr>status := (if completeAnswer = CHR ''y'' then ''complete''
                                    else ''incomplete'')\<rparr> # post))"
    by (simp only: snd_conv renumberOnStatusChange_props(3) [OF assms] lt
        setStatus_split [OF ip it])
next
  assume "search i tr = None"
  then show "updateChoice srt i completeAnswer tr = (None, tr)"
    by (simp add: updateChoice_def)
next
  assume a: "search i tr = None \<and> sorted_wrt (<) (map priority (listTasks tr))
            \<and> (\<forall>u \<in> set (listTasks tr). 1 \<le> priority u)"
  then have sn: "search i tr = None" and s: "sorted_wrt (<) (map priority (listTasks tr))"
    and p: "\<forall>u \<in> set (listTasks tr). 1 \<le> priority u" by blast+
  from insertChoice_ok [OF assms sn s p, of desc cat years months days hoursInput]
  obtain tr' where
    u: "insertChoice srt i desc cat years months days hoursInput tr = (None, tr')"
    "listTasks tr' = insertList srt i desc cat years months days hoursInput (listTasks tr)"
    by blast
  from u(1) show "fst (insertChoice srt i desc cat years months days hoursInput tr) = None"
    by simp
  from u show "mset (map forget
                  (listTasks (snd (insertChoice srt i desc cat years months days hoursInput tr))))
                = mset (map forget (listTasks tr))
                  + {#forget (newTask i desc cat years months days hoursInput (listTasks tr))#}"
    by (simp only: snd_conv insertList_props(3) [OF assms s p])
next
  assume "search i tr \<noteq> None"
  then show "insertChoice srt i desc cat years months days hoursInput tr = (None, tr)"
    by (simp add: insertChoice_def)
next
  assume a: "treeInv tr \<and> idMap tr i = Some p \<and> nodeAt (root tr) p = Some (v, key)"
  then have "\<exists>tr'. deleteChoice i tr = (None, tr')
     \<and> listTasks tr' = filter (\<lambda>t. priority t \<noteq> key) (listTasks tr) \<and> treeInv tr'"
    by (intro deleteChoice_ok) blast+
  then show "listTasks (snd (deleteChoice i tr))
                = filter (\<lambda>u. priority u \<noteq> key) (listTasks tr)" by auto
next
  assume "idMap tr i = None"
  then show "deleteChoice i tr = (None, tr)"
    by (simp add: deleteChoice_def deleteTask_def)
qed

theorem C5_witness:
  "std_sort_ok sort_key
   \<and> search ''t10'' scenarioB \<noteq> None
   \<and> listTasks scenarioB = [scenarioB5, scenarioB20] @ scenarioB10 # []
   \<and> idT scenarioB10 = ''t10'' \<and> ''t10'' \<notin> idT ` set [scenarioB5, scenarioB20]
   \<and> status scenarioB10 = ''complete''
   \<and> mset (map forget (listTasks (snd (updateChoice sort_key ''t10'' CHR ''n'' scenarioB))))
       = mset (map forget ([scenarioB5, scenarioB20]
           @ scenarioB10\<lparr>status := (if CHR ''n'' = CHR ''y'' then ''complete''
                                    else ''incomplete'')\<rparr> # []))
   \<and> search ''t7'' scenarioB = None
   \<and> sorted_wrt (<) (map priority (listTasks scenarioB))
   \<and> list_all (\<lambda>u. 1 \<le> priority u) (listTasks scenarioB)
   \<and> mset (map forget
         (listTasks (snd (insertChoice sort_key ''t7'' ''fourth'' ''work'' 0 0 0 7 scenarioB))))
       = mset (map forget (listTasks scenarioB))
         + {#forget (newTask ''t7'' ''fourth'' ''work'' 0 0 0 7 (listTasks scenarioB))#}
   \<and> treeInv scenarioB \<and> idMap scenarioB ''t20'' = Some 7
   \<and> nodeAt (root scenarioB) 7 = Some (scenarioB20, 2)
   \<and> listTasks (snd (deleteChoice ''t20'' scenarioB))
       = filter (\<lambda>u. priority u \<noteq> 2) (listTasks scenarioB)"
proof -
  have h1: "search ''t10'' scenarioB \<noteq> None" by code_simp
  have h2: "listTasks scenarioB = [scenarioB5, scenarioB20] @ scenarioB10 # []" by code_simp
  have h3: "idT scenarioB10 = ''t10''" by code_simp
  have h4: "''t10'' \<notin> idT ` set [scenarioB5, scenarioB20]" by code_simp
  have h5: "status scenarioB10 = ''complete''" by code_simp
  have h6: "search ''t7'' scenarioB = None" by code_simp
  have h7: "sorted_wrt (<) (map priority (listTasks scenarioB))" by code_simp
  have h8: "list_all (\<lambda>u. 1 \<le> priority u) (listTasks scenarioB)" by code_simp
  then have h8': "\<forall>u \<in> set (listTasks scenarioB). 1 \<le> priority u"
    by (simp only: list_all_iff)
  have h9: "treeInv scenarioB" by code_simp
  have h10: "idMap scenarioB ''t20'' = Some 7" by code_simp
  have h11: "nodeAt (root scenarioB) 7 = Some (scenarioB20, 2)" by code_simp
  from C5_status_by_operation [OF std_sort_ok_sort_key,
      of "''t10''" scenarioB "[scenarioB5, scenarioB20]" scenarioB10 "[]" "CHR ''n''"
        "''fourth''" "''work''" 0 0 0 7 7 scenarioB20 2] h1 h2 h3 h4
  have a: "mset (map forget (listTasks (snd (updateChoice sort_key ''t10'' CHR ''n'' scenarioB))))
       = mset (map forget ([scenarioB5, scenarioB20]
           @ scenarioB10\<lparr>status := (if CHR ''n'' = CHR ''y'' then ''complete''
                                    else ''incomplete'')\<rparr> # []))" by blast
  from C5_status_by_operation [OF std_sort_ok_sort_key,
      of "''t7''" scenarioB "[scenarioB5, scenarioB20]" scenarioB10 "[]" "CHR ''n''"
        "''fourth''" "''work''" 0 0 0 7 7 scenarioB20 2] h6 h7 h8'
  have b: "mset (map forget
         (listTasks (snd (insertChoice sort_key ''t7'' ''fourth'' ''work'' 0 0 0 7 scenarioB))))
       = mset (map forget (listTasks scenarioB))
         + {#forget (newTask ''t7'' ''fourth'' ''work'' 0 0 0 7 (listTasks scenarioB))#}"
    by blast
  from C5_status_by_operation [OF std_sort_ok_sort_key,
      of "''t20''" scenarioB "[scenarioB5, scenarioB20]" scenarioB10 "[]" "CHR ''n''"
        "''fourth''" "''work''" 0 0 0 7 7 scenarioB20 2] h9 h10 h11
  have c: "listTasks (snd (deleteChoice ''t20'' scenarioB))
       = filter (\<lambda>u. priority u \<noteq> 2) (listTasks scenarioB)" by blast
  from std_sort_ok_sort_key h1 h2 h3 h4 h5 a h6 h7 h8 b h9 h10 h11 c show ?thesis by blast
qed

text \<open>
  The claim as stated fails: in Scenario B's state the 10-hour task is complete, and a
  status update of it answered \<open>n\<close> makes it incomplete again.
\<close>

theorem C5_counterexample:
  "map (\<lambda>t. (idT t, status t)) (listTasks scenarioB)
     = [(''t5'', ''incomplete''), (''t20'', ''incomplete''), (''t10'', ''complete'')]
   \<and> map (\<lambda>t. (idT t, status t))
       (listTasks (snd (updateChoice sort_key ''t10'' CHR ''n'' scenarioB)))
     = [(''t5'', ''incomplete''), (''t10'', ''incomplete''), (''t20'', ''incomplete'')]"
  by code_simp

section \<open>Failed operations\<close>

text \<open>
  Claim C6, as the code has it. An \<open>insert\<close> that throws (same id, or same priority key)
  and a \<open>deleteTask\<close> that throws "Task ID not found." leave the tree and the map as
  they were. While no task has been deleted since the index was created or last rebuilt,
  the \<open>insert\<close> of a task whose id is listed throws "Task with the same ID already
  exists.". In every reachable state the \<open>insert\<close> of a task whose id \<open>search\<close> does not
  find and whose priority is listed throws "Duplicate priority encountered.", and the
  \<open>deleteTask\<close> of an id that is not listed throws "Task ID not found.". \<open>rebuild\<close>
  throws exactly when two tasks of its list have the same priority, and then nothing of
  what the index held before is left: it lists the tasks of the list that precede the
  first duplicate, by ascending priority, and the map has their ids and no other.
\<close>

theorem C6_failed_operations:
  "(fst (insert_task task tr) = Some DuplicateId
      \<or> fst (insert_task task tr) = Some DuplicatePriorityKey
      \<longrightarrow> snd (insert_task task tr) = tr)
   \<and> (fst (deleteTask i tr) = Some NotFound \<longrightarrow> snd (deleteTask i tr) = tr)
   \<and> (noDeletion tr \<and> idT task \<in> idT ` set (listTasks tr)
      \<longrightarrow> insert_task task tr = (Some DuplicateId, tr))
   \<and> (reachable tr \<and> search (idT task) tr = None
        \<and> priority task \<in> priority ` set (listTasks tr)
      \<longrightarrow> insert_task task tr = (Some DuplicatePriorityKey, tr))
   \<and> (reachable tr \<and> i \<notin> idT ` set (listTasks tr)
      \<longrightarrow> deleteTask i tr = (Some NotFound, tr))
   \<and> (fst (rebuild ts tr) = Some DuplicatePriorityKey \<longleftrightarrow> \<not> distinct (map priority ts))
   \<and> (fst (rebuild ts tr) = Some DuplicatePriorityKey \<longrightarrow>
        (\<exists>j < length ts. distinct (map priority (take j ts))
           \<and> priority (ts ! j) \<in> priority ` set (take j ts)
           \<and> listTasks (snd (rebuild ts tr)) = sort_key priority (take j ts)
           \<and> dom (idMap (snd (rebuild ts tr))) = idT ` set (take j ts)))"
proof (intro conjI impI)
  assume a: "fst (insert_task task tr) = Some DuplicateId
    \<or> fst (insert_task task tr) = Some DuplicatePriorityKey"
  show "snd (insert_task task tr) = tr"
  proof (cases "idMap tr (idT task) \<noteq> None")
    case True
    then show ?thesis by (simp add: insert_task_def)
  next
    case False
    obtain res m n where ih: "insertHelper (root tr) task (idMap tr, nextAddr tr) = (res, (m, n))"
      by (metis surj_pair)
    show ?thesis
    proof (cases res)
      case (Inl e)
      with a False ih insertHelper_error [of "root tr" task "(idMap tr, nextAddr tr)" e "(m, n)"]
      have "e = DuplicatePriorityKey" by (auto simp: insert_task_def)
      with insertHelper_dup_state [of "root tr" task "(idMap tr, nextAddr tr)" "(m, n)"] ih Inl
      have "m = idMap tr" "n = nextAddr tr" by simp_all
      with False ih Inl show ?thesis by (simp add: insert_task_def)
    next
      case (Inr r)
      with a False ih show ?thesis by (simp add: insert_task_def)
    qed
  qed
next
  assume "fst (deleteTask i tr) = Some NotFound"
  then show "snd (deleteTask i tr) = tr"
    by (auto simp: deleteTask_def split: option.splits prod.splits sum.splits
        dest: deleteHelper_error)
next
  assume a: "noDeletion tr \<and> idT task \<in> idT ` set (listTasks tr)"
  then obtain t where "t \<in> set (listTasks tr)" "idT t = idT task" by force
  with a noDeletion_mapped [of tr] have "idMap tr (idT task) \<noteq> None" by metis
  then show "insert_task task tr = (Some DuplicateId, tr)" by (simp add: insert_task_def)
next
  assume a: "reachable tr \<and> search (idT task) tr = None
    \<and> priority task \<in> priority ` set (listTasks tr)"
  then have "treeInv tr" by (simp add: reachable_treeInv)
  from insert_step_contents [OF this, of task] a
  have "insertHelper (root tr) task (idMap tr, nextAddr tr)
      = (Inl DuplicatePriorityKey, (idMap tr, nextAddr tr))" by blast
  with a show "insert_task task tr = (Some DuplicatePriorityKey, tr)"
    by (simp add: insert_task_def search_def)
next
  assume "reachable tr \<and> i \<notin> idT ` set (listTasks tr)"
  then have "idMap tr i = None" by (simp add: reachable_unlisted)
  then show "deleteTask i tr = (Some NotFound, tr)" by (simp add: deleteTask_def)
next
  show "(fst (rebuild ts tr) = Some DuplicatePriorityKey) = (\<not> distinct (map priority ts))"
    by (rule rebuild_fails_iff)
next
  assume a: "fst (rebuild ts tr) = Some DuplicatePriorityKey"
  from rebuild_contents [of ts tr] obtain j where j: "j \<le> length ts"
    and f: "fst (rebuild ts tr) = (if j = length ts then None else Some DuplicatePriorityKey)"
    and p: "j < length ts \<longrightarrow> priority (ts ! j) \<in> priority ` set (take j ts)"
    and r: "distinct (map priority (take j ts))"
      "listTasks (snd (rebuild ts tr)) = sort_key priority (take j ts)"
      "dom (idMap (snd (rebuild ts tr))) = idT ` set (take j ts)" by blast
  from a f have "j \<noteq> length ts" by (auto split: if_splits)
  with j have "j < length ts" by simp
  with p r show "\<exists>j < length ts. distinct (map priority (take j ts))
           \<and> priority (ts ! j) \<in> priority ` set (take j ts)
           \<and> listTasks (snd (rebuild ts tr)) = sort_key priority (take j ts)
           \<and> dom (idMap (snd (rebuild ts tr))) = idT ` set (take j ts)" by blast
qed

theorem C6_witness:
  "fst (insert_task \<lparr>idT = ''t5'', description = ''again'', deadlineDetails = ''N/A'',
          priority = 9, category = ''c'', status = ''incomplete'', remainingHours = 1\<rparr>
        scenarioA) = Some DuplicateId
   \<and> snd (insert_task \<lparr>idT = ''t5'', description = ''again'', deadlineDetails = ''N/A'',
          priority = 9, category = ''c'', status = ''incomplete'', remainingHours = 1\<rparr>
        scenarioA) = scenarioA
   \<and> fst (deleteTask ''absent'' scenarioA) = Some NotFound
   \<and> snd (deleteTask ''absent'' scenarioA) = scenarioA
   \<and> noDeletion scenarioA \<and> ''t5'' \<in> idT ` set (listTasks scenarioA)
   \<and> insert_task \<lparr>idT = ''t5'', description = ''again'', deadlineDetails = ''N/A'',
          priority = 9, category = ''c'', status = ''incomplete'', remainingHours = 1\<rparr>
        scenarioA = (Some DuplicateId, scenarioA)
   \<and> reachable scenarioA \<and> search ''t7'' scenarioA = None
   \<and> 2 \<in> priority ` set (listTasks scenarioA)
   \<and> insert_task \<lparr>idT = ''t7'', description = ''new'', deadlineDetails = ''N/A'',
          priority = 2, category = ''c'', status = ''incomplete'', remainingHours = 7\<rparr>
        scenarioA = (Some DuplicatePriorityKey, scenarioA)
   \<and> ''absent'' \<notin> idT ` set (listTasks scenarioA)
   \<and> deleteTask ''absent'' scenarioA = (Some NotFound, scenarioA)
   \<and> fst (rebuild [dupX, dupY] scenarioA) = Some DuplicatePriorityKey
   \<and> \<not> distinct (map priority [dupX, dupY])
   \<and> (\<exists>j < length [dupX, dupY]. distinct (map priority (take j [dupX, dupY]))
        \<and> priority ([dupX, dupY] ! j) \<in> priority ` set (take j [dupX, dupY])
        \<and> listTasks (snd (rebuild [dupX, dupY] scenarioA))
            = sort_key priority (take j [dupX, dupY])
        \<and> dom (idMap (snd (rebuild [dupX, dupY] scenarioA)))
            = idT ` set (take j [dupX, dupY]))"
proof -
  let ?t = "\<lparr>idT = ''t5'', description = ''again'', deadlineDetails = ''N/A'',
          priority = 9, category = ''c'', status = ''incomplete'', remainingHours = 1\<rparr>"
  let ?u = "\<lparr>idT = ''t7'', description = ''new'', deadlineDetails = ''N/A'',
          priority = 2, category = ''c'', status = ''incomplete'', remainingHours = 7\<rparr>"
  have a: "fst (insert_task ?t scenarioA) = Some DuplicateId" by code_simp
  have b: "fst (deleteTask ''absent'' scenarioA) = Some NotFound" by code_simp
  have c: "fst (rebuild [dupX, dupY] scenarioA) = Some DuplicatePriorityKey" by code_simp
  have d: "noDeletion scenarioA" unfolding scenarioA_def
    by (intro noDeletion_insertChoice noDeletion.created)
  have e: "reachable scenarioA" unfolding scenarioA_def
    by (intro reachable_insertChoice reachable.start)
  have f: "''t5'' \<in> idT ` set (listTasks scenarioA)" by code_simp
  have g: "search ''t7'' scenarioA = None" by code_simp
  have h: "2 \<in> priority ` set (listTasks scenarioA)" by code_simp
  have i: "''absent'' \<notin> idT ` set (listTasks scenarioA)" by code_simp
  have it: "idT ?t = ''t5''" and iu: "idT ?u = ''t7''" and pu: "priority ?u = 2" by simp_all
  note T = C6_failed_operations [of ?t scenarioA "''absent''" "[dupX, dupY]"]
  note U = C6_failed_operations [of ?u scenarioA "''absent''" "[dupX, dupY]"]
  from T a have 1: "snd (insert_task ?t scenarioA) = scenarioA" by blast
  from T b have 2: "snd (deleteTask ''absent'' scenarioA) = scenarioA" by blast
  from T d f it have 3: "insert_task ?t scenarioA = (Some DuplicateId, scenarioA)" by metis
  from U e g h iu pu have 4: "insert_task ?u scenarioA = (Some DuplicatePriorityKey, scenarioA)"
    by metis
  from T e i have 5: "deleteTask ''absent'' scenarioA = (Some NotFound, scenarioA)" by blast
  from T c have 6: "\<not> distinct (map priority [dupX, dupY])" by blast
  from T c have 7: "\<exists>j < length [dupX, dupY]. distinct (map priority (take j [dupX, dupY]))
        \<and> priority ([dupX, dupY] ! j) \<in> priority ` set (take j [dupX, dupY])
        \<and> listTasks (snd (rebuild [dupX, dupY] scenarioA))
            = sort_key priority (take j [dupX, dupY])
        \<and> dom (idMap (snd (rebuild [dupX, dupY] scenarioA)))
            = idT ` set (take j [dupX, dupY])" by blast
  from a 1 b 2 d f 3 e g h 4 i 5 c 6 7 show ?thesis by blast
qed

text \<open>
  The claim as stated fails for \<open>rebuild\<close>: rebuilding the three-task tree of Scenario A
  from a list whose two tasks share priority 1 throws on the second, and the tree then
  lists the first task of that list instead of the three it held.
\<close>

theorem C6_counterexample:
  "fst (rebuild [dupX, dupY] scenarioA) = Some DuplicatePriorityKey
   \<and> map idT (listTasks scenarioA) = [''t5'', ''t10'', ''t20'']
   \<and> map idT (listTasks (snd (rebuild [dupX, dupY] scenarioA))) = [''x'']"
  by code_simp

text \<open>
  After a deletion the insertion of a listed id need not throw. In Scenario C's state the
  completed 10-hour task is listed and \<open>search\<close> does not find it, the deletion of the
  20-hour task having erased its id from the map: a second task \<open>t10\<close> is inserted and
  the listing has the id twice.
\<close>

lemma insert_listed_after_deletion:
  "map idT (listTasks scenarioC) = [''t5'', ''t10'']
   \<and> search ''t10'' scenarioC = None
   \<and> fst (insert_task \<lparr>idT = ''t10'', description = ''again'', deadlineDetails = ''N/A'',
          priority = 2, category = ''c'', status = ''incomplete'', remainingHours = 1\<rparr>
        scenarioC) = None
   \<and> map idT (listTasks (snd (insert_task \<lparr>idT = ''t10'', description = ''again'',
          deadlineDetails = ''N/A'', priority = 2, category = ''c'', status = ''incomplete'',
          remainingHours = 1\<rparr> scenarioC))) = [''t5'', ''t10'', ''t10'']"
  by code_simp

section \<open>Round trip\<close>

text \<open>
  Claim C7. For every state of the tree whose listing is strictly ascending by priority
  (the tree is a search tree on unique priority keys), \<open>rebuild(listTasks())\<close> returns
  without an exception and the listing afterwards is the same list.
\<close>

theorem C7_rebuild_listTasks_round_trip:
  assumes "sorted_wrt (<) (map priority (listTasks tr))"
  shows "\<exists>tr'. rebuild (listTasks tr) tr = (None, tr') \<and> listTasks tr' = listTasks tr"
  using rebuild_ascending [OF assms, of tr] by blast

theorem C7_witness:
  "sorted_wrt (<) (map priority (listTasks scenarioC))
   \<and> (\<exists>tr'. rebuild (listTasks scenarioC) scenarioC = (None, tr')
          \<and> listTasks tr' = listTasks scenarioC)"
proof -
  have h: "sorted_wrt (<) (map priority (listTasks scenarioC))" by code_simp
  from C7_rebuild_listTasks_round_trip [OF h] h show ?thesis by blast
qed

section \<open>Height balance\<close>

text \<open>
  Claim C8. After every sequence of \<open>insert\<close>, \<open>rebuild\<close> and \<open>deleteTask\<close> from the
  empty tree, every node's stored height is one more than the larger of its children's
  and the two children's heights differ by at most one; the stored height of the root is
  the height of the tree; and the height is at most \<open>\<lceil>1.44 * log 2 (N + 2)\<rceil>\<close> for the
  \<open>N\<close> tasks it holds. \<open>N\<close> is below \<open>2 ^ 64\<close>: the nodes are objects in a 64-bit
  address space (the keys, distinct \<open>int\<close>s, allow no more than \<open>2 ^ 32\<close>).
\<close>

theorem C8_balance_and_height:
  assumes "reachable tr"
  shows "avl (root tr) \<and> getHeight (root tr) = int (depth (root tr))
     \<and> (length (listTasks tr) < 2 ^ 64 \<longrightarrow>
          int (depth (root tr)) \<le> \<lceil>1.44 * log 2 (real (length (listTasks tr)) + 2)\<rceil>)"
proof -
  from reachable_treeInv [OF assms] have a: "avl (root tr)"
    unfolding treeInv_def by blast
  have len: "length (listTasks tr) = length (nodesOf (root tr))"
    by (simp add: listTasks_tasksOf tasksOf_def)
  from a avl_getHeight_depth [OF a] avl_depth_bound [OF a] show ?thesis
    unfolding len by blast
qed

theorem C8_witness:
  "reachable scenarioC \<and> length (listTasks scenarioC) < 2 ^ 64
   \<and> avl (root scenarioC) \<and> getHeight (root scenarioC) = int (depth (root scenarioC))
   \<and> int (depth (root scenarioC))
       \<le> \<lceil>1.44 * log 2 (real (length (listTasks scenarioC)) + 2)\<rceil>"
proof -
  have "length (listTasks scenarioC) = 2" by code_simp
  then have l: "length (listTasks scenarioC) < 2 ^ 64" by simp
  from C8_balance_and_height [OF reachable_scenarioC] l reachable_scenarioC
  show ?thesis by blast
qed

section \<open>The status of a new task\<close>

lemma natToString_nonempty: "natToString n \<noteq> []"
  by (subst natToString.simps) simp

lemma to_string_nonempty: "to_string i \<noteq> []"
  by (simp add: to_string_def natToString_nonempty)

lemma deadlineString_length: "3 < length (deadlineString years months days hoursInput)"
  by (simp add: deadlineString_def Let_def)

text \<open>
  Claim C10. The record built by the insertion operation has status "incomplete", the
  deadline text and the remaining hours computed from the four numbers (never the "N/A" of
  a task without deadline), and the priority of the branch for incomplete tasks: the
  status tested at line 119 is never "complete".
\<close>

theorem C10_new_task_incomplete:
  "status (newTask i desc cat years months days hoursInput tasks) = ''incomplete''
   \<and> deadlineDetails (newTask i desc cat years months days hoursInput tasks)
       = deadlineString years months days hoursInput
   \<and> deadlineDetails (newTask i desc cat years months days hoursInput tasks) \<noteq> ''N/A''
   \<and> remainingHours (newTask i desc cat years months days hoursInput tasks)
       = sint (computeRemainingHours years months days hoursInput)
   \<and> initialStatus \<noteq> ''complete''
   \<and> priority (newTask i desc cat years months days hoursInput tasks)
       = fst (rankForInsertion ''incomplete''
           (sint (computeRemainingHours years months days hoursInput)) tasks)"
proof -
  have "deadlineString years months days hoursInput \<noteq> ''N/A''"
    using deadlineString_length [of years months days hoursInput] by auto
  then show ?thesis
    by (simp add: newTask_def deadlineOf_def initialStatus_def split: prod.splits)
qed

end

